theory Spec2Isabelle
  imports Main "HOL-Library.Sublist"
begin

section \<open>ESTree nodes\<close>

text \<open>
  The node types the visitor of \<^verbatim>\<open>src/index.mjs\<close> names through
  \<^verbatim>\<open>syntax.X\<close>, and one constructor for every other type string.
\<close>

datatype Syntax =
    AssignmentExpression
  | AwaitExpression
  | BlockStatement
  | CallExpression
  | DoWhileStatement
  | ExpressionStatement
  | ForInStatement
  | ForOfStatement
  | ForStatement
  | Identifier
  | IfStatement
  | ImportDeclaration
  | Literal
  | MemberExpression
  | ObjectPattern
  | VariableDeclaration
  | VariableDeclarator
  | WhileStatement
  | OtherSyntax string

text \<open>Primitive property values (a name, an operator, a literal's value).\<close>

datatype jsval = JString string | JNumber int | JBoolean bool | JNull

text \<open>
  A node is its \<^verbatim>\<open>type\<close> and its properties. A property holds a primitive, one
  child node, or an array of children (an elided array element is \<open>None\<close>). The
  properties holding nodes are listed in the order in which the tree walker visits them.
\<close>

datatype node = Node (ntype: Syntax) (nfields: "(string \<times> field) list")
and field = Prim jsval | Single node | Array "node option list"

text \<open>
  Property access. A JavaScript value that the visitor tests with
  \<^verbatim>\<open>node && node.type === T\<close> is a \<open>node option\<close>: \<open>None\<close> stands for
  \<^verbatim>\<open>undefined\<close>, \<^verbatim>\<open>null\<close> and every value without a \<^verbatim>\<open>type\<close>. Nodes have
  the properties that the ESTree specification gives their type (a call has its
  \<^verbatim>\<open>arguments\<close>, a declaration its \<^verbatim>\<open>declarations\<close>, an object pattern its
  \<^verbatim>\<open>properties\<close>); on a node without them the accessors return \<open>None\<close> or the
  empty array.
\<close>

definition get :: "node \<Rightarrow> string \<Rightarrow> node option" where
  "get n k = (case map_of (nfields n) k of Some (Single c) \<Rightarrow> Some c | _ \<Rightarrow> None)"

definition elems :: "node \<Rightarrow> string \<Rightarrow> node option list" where
  "elems n k = (case map_of (nfields n) k of Some (Array xs) \<Rightarrow> xs | _ \<Rightarrow> [])"

definition prim :: "node \<Rightarrow> string \<Rightarrow> jsval option" where
  "prim n k = (case map_of (nfields n) k of Some (Prim x) \<Rightarrow> Some x | _ \<Rightarrow> None)"

fun prop_of :: "node option \<Rightarrow> string \<Rightarrow> node option" where
  "prop_of None k = None"
| "prop_of (Some n) k = get n k"

fun name_of :: "node option \<Rightarrow> string option" where
  "name_of None = None"
| "name_of (Some n) = (case prim n ''name'' of Some (JString s) \<Rightarrow> Some s | _ \<Rightarrow> None)"

section \<open>Building nodes\<close>

text \<open>
  Shorthands for the node shapes of the ESTree specification that the examples use, their
  child properties in the walker's visiting order.
\<close>

abbreviation mk_identifier :: "string \<Rightarrow> node" where
  "mk_identifier nm \<equiv> Node Identifier [(''name'', Prim (JString nm))]"

abbreviation mk_literal :: "jsval \<Rightarrow> node" where
  "mk_literal x \<equiv> Node Literal [(''value'', Prim x)]"

abbreviation mk_memberExpr :: "node \<Rightarrow> node \<Rightarrow> node" where
  "mk_memberExpr obj prp \<equiv>
     Node MemberExpression
       [(''object'', Single obj), (''property'', Single prp), (''computed'', Prim (JBoolean False))]"

abbreviation mk_callExpr :: "node \<Rightarrow> node list \<Rightarrow> node" where
  "mk_callExpr callee args \<equiv>
     Node CallExpression [(''callee'', Single callee), (''arguments'', Array (map Some args))]"

abbreviation mk_awaitExpr :: "node \<Rightarrow> node" where
  "mk_awaitExpr arg \<equiv> Node AwaitExpression [(''argument'', Single arg)]"

abbreviation mk_exprStmt :: "node \<Rightarrow> node" where
  "mk_exprStmt e \<equiv> Node ExpressionStatement [(''expression'', Single e)]"

abbreviation mk_declarator :: "node \<Rightarrow> node \<Rightarrow> node" where
  "mk_declarator ident init \<equiv> Node VariableDeclarator [(''id'', Single ident), (''init'', Single init)]"

abbreviation mk_varDecl :: "string \<Rightarrow> node list \<Rightarrow> node" where
  "mk_varDecl kind ds \<equiv>
     Node VariableDeclaration
       [(''declarations'', Array (map Some ds)), (''kind'', Prim (JString kind))]"

abbreviation mk_property :: "node \<Rightarrow> node \<Rightarrow> node" where
  "mk_property k x \<equiv> Node (OtherSyntax ''Property'') [(''key'', Single k), (''value'', Single x)]"

abbreviation mk_objectPattern :: "node list \<Rightarrow> node" where
  "mk_objectPattern ps \<equiv> Node ObjectPattern [(''properties'', Array (map Some ps))]"

abbreviation mk_assignmentPattern :: "node \<Rightarrow> node \<Rightarrow> node" where
  "mk_assignmentPattern l r \<equiv>
     Node (OtherSyntax ''AssignmentPattern'') [(''left'', Single l), (''right'', Single r)]"

abbreviation mk_importSpecifier :: "node \<Rightarrow> node \<Rightarrow> node" where
  "mk_importSpecifier imported local \<equiv>
     Node (OtherSyntax ''ImportSpecifier'') [(''imported'', Single imported), (''local'', Single local)]"

abbreviation mk_importDecl :: "node list \<Rightarrow> node \<Rightarrow> node" where
  "mk_importDecl specs source \<equiv>
     Node ImportDeclaration [(''specifiers'', Array (map Some specs)), (''source'', Single source)]"

abbreviation mk_ifStmt :: "node \<Rightarrow> field \<Rightarrow> field \<Rightarrow> node" where
  "mk_ifStmt test cons alt \<equiv>
     Node IfStatement [(''test'', Single test), (''consequent'', cons), (''alternate'', alt)]"

abbreviation mk_whileStmt :: "node \<Rightarrow> field \<Rightarrow> node" where
  "mk_whileStmt test body \<equiv> Node WhileStatement [(''test'', Single test), (''body'', body)]"

abbreviation mk_emptyBlock :: node where
  "mk_emptyBlock \<equiv> Node BlockStatement [(''body'', Array [])]"

abbreviation mk_program :: "node list \<Rightarrow> node" where
  "mk_program body \<equiv> Node (OtherSyntax ''Program'') [(''body'', Array (map Some body))]"

section \<open>Options\<close>

record options =
  modules :: "string list option"
  variables :: "string list option"

definition defaultOptions :: options where
  "defaultOptions =
     \<lparr> modules = Some [''assert'', ''assert/strict'', ''node:assert'', ''node:assert/strict''],
       variables = None \<rparr>"

text \<open>\<^verbatim>\<open>Object.assign(defaultOptions(), options)\<close>: a key of \<open>options\<close> that is present
  overwrites the default's.\<close>

definition assign :: "options \<Rightarrow> options \<Rightarrow> options" where
  "assign target source =
     \<lparr> modules = (case modules source of Some m \<Rightarrow> Some m | None \<Rightarrow> modules target),
       variables = (case variables source of Some x \<Rightarrow> Some x | None \<Rightarrow> variables target) \<rparr>"

text \<open>\<^verbatim>\<open>new Set(xs)\<close>; \<^verbatim>\<open>new Set(undefined)\<close> is the empty set.\<close>

fun newSet :: "string list option \<Rightarrow> string set" where
  "newSet None = {}"
| "newSet (Some xs) = set xs"

section \<open>The visitor\<close>

text \<open>
  A node's identity (the key of the \<^verbatim>\<open>WeakSet\<close>) is its position in the input tree:
  the steps from the root down to it, innermost first. The last key of the walker's
  \<^verbatim>\<open>path()\<close> is the head of the list: a property name for a node held in a property,
  an index for an element of an array.
\<close>

datatype step = Key string | Item string nat

type_synonym path = "step list"

record visitor =
  targetModules :: "string set"
  targetVariables :: "string set"
  nodeToRemove :: "path set"

definition createVisitor :: "options \<Rightarrow> visitor" where
  "createVisitor opts =
     (let config = assign defaultOptions opts in
      \<lparr> targetModules = newSet (modules config),
        targetVariables = newSet (variables config),
        nodeToRemove = {} \<rparr>)"

definition isBodyOfIfStatement :: "node \<Rightarrow> step \<Rightarrow> bool" where
  "isBodyOfIfStatement parentNode key \<longleftrightarrow>
     ntype parentNode = IfStatement \<and> (key = Key ''consequent'' \<or> key = Key ''alternate'')"

fun isIterationStatement :: "node \<Rightarrow> bool" where
  "isIterationStatement (Node DoWhileStatement fs) = True"
| "isIterationStatement (Node ForInStatement fs) = True"
| "isIterationStatement (Node ForOfStatement fs) = True"
| "isIterationStatement (Node ForStatement fs) = True"
| "isIterationStatement (Node WhileStatement fs) = True"
| "isIterationStatement n = False"

definition isBodyOfIterationStatement :: "node \<Rightarrow> step \<Rightarrow> bool" where
  "isBodyOfIterationStatement parentNode key \<longleftrightarrow>
     isIterationStatement parentNode \<and> key = Key ''body''"

fun has_type :: "Syntax \<Rightarrow> node option \<Rightarrow> bool" where
  "has_type t None = False"
| "has_type t (Some n) = (ntype n = t)"

abbreviation "isLiteral \<equiv> has_type Literal"
abbreviation "isIdentifier \<equiv> has_type Identifier"
abbreviation "isObjectPattern \<equiv> has_type ObjectPattern"
abbreviation "isMemberExpression \<equiv> has_type MemberExpression"
abbreviation "isCallExpression \<equiv> has_type CallExpression"
abbreviation "isExpressionStatement \<equiv> has_type ExpressionStatement"
abbreviation "isImportDeclaration \<equiv> has_type ImportDeclaration"

definition isNonBlockChildOfIfStatementOrLoop :: "node \<Rightarrow> node \<Rightarrow> step \<Rightarrow> bool" where
  "isNonBlockChildOfIfStatementOrLoop currentNode parentNode key \<longleftrightarrow>
     ntype currentNode = ExpressionStatement \<and>
     isCallExpression (get currentNode ''expression'') \<and>
     (isBodyOfIfStatement parentNode key \<or> isBodyOfIterationStatement parentNode key)"

fun isAssertionModuleName :: "visitor \<Rightarrow> node option \<Rightarrow> bool" where
  "isAssertionModuleName v None = False"
| "isAssertionModuleName v (Some lit) =
     (ntype lit = Literal \<and>
      (case prim lit ''value'' of Some (JString s) \<Rightarrow> s \<in> targetModules v | _ \<Rightarrow> False))"

definition isAssertionVariableName :: "visitor \<Rightarrow> node option \<Rightarrow> bool" where
  "isAssertionVariableName v ident \<longleftrightarrow>
     isIdentifier ident \<and> (case name_of ident of Some s \<Rightarrow> s \<in> targetVariables v | None \<Rightarrow> False)"

function isAssertionMethod :: "visitor \<Rightarrow> node option \<Rightarrow> bool" where
  "isAssertionMethod v None = False"
| "isAssertionMethod v (Some callee) =
     (if \<not> isMemberExpression (Some callee) then False
      else (let obj = get callee ''object'' in
            if isMemberExpression obj then isAssertionMethod v obj
            else isAssertionVariableName v obj))"
  by pat_completeness auto
termination
proof (relation "measure (\<lambda>(v, c). case c of None \<Rightarrow> 0 | Some n \<Rightarrow> size n)", goal_cases)
  case 1
  show ?case by simp
next
  case (2 v callee obj)
  have child: "map_of fs k = Some (Single c) \<Longrightarrow> size c < Suc (size_list (size_prod (\<lambda>_. 0) size) fs)"
    for fs :: "(string \<times> field) list" and k c
    by (induction fs) (auto split: if_splits)
  from 2 obtain c where c: "get callee ''object'' = Some c"
    by (cases "get callee ''object''") auto
  then have "map_of (nfields callee) ''object'' = Some (Single c)"
    by (auto simp: get_def split: option.splits field.splits)
  from child [OF this] have "size c < size callee" by (cases callee) simp
  with 2 c show ?case by simp
qed

definition isAssertionFunction :: "visitor \<Rightarrow> node option \<Rightarrow> bool" where
  "isAssertionFunction v callee = isAssertionVariableName v callee"

definition isConsoleAssert :: "node option \<Rightarrow> bool" where
  "isConsoleAssert callee =
     (if \<not> isMemberExpression callee then False
      else (let obj = prop_of callee ''object''; prp = prop_of callee ''property'' in
            isIdentifier obj \<and> name_of obj = Some ''console'' \<and>
            isIdentifier prp \<and> name_of prp = Some ''assert''))"

definition registerIdentifierAsAssertionVariable :: "visitor \<Rightarrow> node option \<Rightarrow> visitor" where
  "registerIdentifierAsAssertionVariable v ident =
     (if isIdentifier ident
      then (case name_of ident of
              Some s \<Rightarrow> v\<lparr>targetVariables := insert s (targetVariables v)\<rparr>
            | None \<Rightarrow> v)
      else v)"

text \<open>The two \<^verbatim>\<open>for ... of\<close> loops: one registration per element, in order.\<close>

fun registerEach :: "string \<Rightarrow> visitor \<Rightarrow> node option list \<Rightarrow> visitor" where
  "registerEach k v [] = v"
| "registerEach k v (x # xs) =
     registerEach k (registerIdentifierAsAssertionVariable v (prop_of x k)) xs"

definition handleDestructuredAssertionAssignment :: "visitor \<Rightarrow> node \<Rightarrow> visitor" where
  "handleDestructuredAssertionAssignment v objectPattern =
     registerEach ''value'' v (elems objectPattern ''properties'')"

definition handleImportSpecifiers :: "visitor \<Rightarrow> node \<Rightarrow> visitor" where
  "handleImportSpecifiers v importDeclaration =
     registerEach ''local'' v (elems importDeclaration ''specifiers'')"

fun registerAssertionVariables :: "visitor \<Rightarrow> node option \<Rightarrow> visitor" where
  "registerAssertionVariables v None = v"
| "registerAssertionVariables v (Some n) =
     (if isIdentifier (Some n) then registerIdentifierAsAssertionVariable v (Some n)
      else if isObjectPattern (Some n) then handleDestructuredAssertionAssignment v n
      else if isImportDeclaration (Some n) then handleImportSpecifiers v n
      else v)"

text \<open>\<^verbatim>\<open>init.arguments[0]\<close>.\<close>

fun first_argument :: "node option \<Rightarrow> node option" where
  "first_argument None = None"
| "first_argument (Some n) = (case elems n ''arguments'' of [] \<Rightarrow> None | a # _ \<Rightarrow> a)"

definition isRequireAssert :: "visitor \<Rightarrow> node option \<Rightarrow> node option \<Rightarrow> bool" where
  "isRequireAssert v ident init =
     (if \<not> isCallExpression init then False
      else (let callee = prop_of init ''callee'' in
            if \<not> isIdentifier callee \<or> name_of callee \<noteq> Some ''require'' then False
            else (let arg = first_argument init in
                  if \<not> isLiteral arg \<or> \<not> isAssertionModuleName v arg then False
                  else isIdentifier ident \<or> isObjectPattern ident)))"

definition isRequireAssertStrict :: "visitor \<Rightarrow> node option \<Rightarrow> node option \<Rightarrow> bool" where
  "isRequireAssertStrict v ident init =
     (if \<not> isMemberExpression init then False
      else if \<not> isRequireAssert v ident (prop_of init ''object'') then False
      else (let prp = prop_of init ''property'' in
            if \<not> isIdentifier prp then False
            else name_of prp = Some ''strict''))"

definition isRemovalTarget :: "visitor \<Rightarrow> node option \<Rightarrow> node option \<Rightarrow> bool" where
  "isRemovalTarget v ident init \<longleftrightarrow> isRequireAssert v ident init \<or> isRequireAssertStrict v ident init"

text \<open>\<^verbatim>\<open>nodeToRemove.add(node)\<close>, the node given by its position.\<close>

definition add :: "path \<Rightarrow> visitor \<Rightarrow> visitor" where
  "add p v = v\<lparr>nodeToRemove := insert p (nodeToRemove v)\<rparr>"

text \<open>
  \<^verbatim>\<open>enter\<close> returns whether it called \<^verbatim>\<open>this.skip()\<close>, and the visitor's new
  state. \<open>p\<close> is the position of \<open>currentNode\<close>, so \<open>tl p\<close> is that of
  \<open>parentNode\<close>.
\<close>

definition enter :: "visitor \<Rightarrow> path \<Rightarrow> node \<Rightarrow> node \<Rightarrow> bool \<times> visitor" where
  "enter v p currentNode parentNode =
     (case ntype currentNode of
        ImportDeclaration \<Rightarrow>
          (let source = get currentNode ''source'' in
           if \<not> isAssertionModuleName v source then (False, v)
           else (True, registerAssertionVariables (add p v) (Some currentNode)))
      | VariableDeclarator \<Rightarrow>
          (if isRemovalTarget v (get currentNode ''id'') (get currentNode ''init'')
           then (True, registerAssertionVariables
                   (if length (elems parentNode ''declarations'') = 1
                    then add (tl p) v else add p v)
                   (get currentNode ''id''))
           else (False, v))
      | AssignmentExpression \<Rightarrow>
          (if prim currentNode ''operator'' \<noteq> Some (JString ''='') then (False, v)
           else if \<not> isExpressionStatement (Some parentNode) then (False, v)
           else if isRemovalTarget v (get currentNode ''left'') (get currentNode ''right'')
           then (True, registerAssertionVariables (add (tl p) v) (get currentNode ''left''))
           else (False, v))
      | CallExpression \<Rightarrow>
          (if \<not> isExpressionStatement (Some parentNode) then (False, v)
           else (let callee = get currentNode ''callee'' in
                 if isAssertionFunction v callee \<or> isAssertionMethod v callee \<or>
                    isConsoleAssert callee
                 then (True, add (tl p) v) else (False, v)))
      | AwaitExpression \<Rightarrow>
          (let childNode = get currentNode ''argument'' in
           if isExpressionStatement (Some parentNode) \<and> isCallExpression childNode
           then (let callee = prop_of childNode ''callee'' in
                 if isAssertionFunction v callee \<or> isAssertionMethod v callee \<or>
                    isConsoleAssert callee
                 then (True, add (tl p) v) else (False, v))
           else (False, v))
      | _ \<Rightarrow> (False, v))"

text \<open>
  What \<^verbatim>\<open>leave\<close> tells the walker: nothing, a replacement node (its return value),
  or \<^verbatim>\<open>this.remove()\<close>. For the root \<^verbatim>\<open>this.path()\<close> is \<^verbatim>\<open>null\<close>, and
  reading \<^verbatim>\<open>path.length\<close> throws.
\<close>

datatype outcome = NoChange | ReplaceWith node | RemoveSelf

datatype error = TypeError

definition leave :: "visitor \<Rightarrow> path \<Rightarrow> node \<Rightarrow> node \<Rightarrow> error + outcome" where
  "leave v p currentNode parentNode =
     (if ntype currentNode \<notin>
           {ImportDeclaration, VariableDeclarator, VariableDeclaration, ExpressionStatement}
      then Inr NoChange
      else if p \<in> nodeToRemove v then
        (case p of
           [] \<Rightarrow> Inl TypeError
         | key # _ \<Rightarrow>
             if isNonBlockChildOfIfStatementOrLoop currentNode parentNode key
             then Inr (ReplaceWith mk_emptyBlock)
             else Inr RemoveSelf)
      else Inr NoChange)"

section \<open>The tree walker\<close>

text \<open>
  Modelled from the spec: the walk-and-replace engine (\<^verbatim>\<open>replace\<close> of the
  \<^verbatim>\<open>estraverse\<close> package, not part of the repository), after the collaborator
  contract of the specification: \<^verbatim>\<open>enter\<close> in pre-order and \<^verbatim>\<open>leave\<close> in
  post-order with the current node and its parent, the children of a skipped node not
  visited, a node returned by \<^verbatim>\<open>leave\<close> put in the place of the current one, a removed
  node spliced out of its array or its property set to \<^verbatim>\<open>null\<close>. The children are
  visited in the order of the node's properties, the elements of an array in index order,
  elided elements and \<^verbatim>\<open>null\<close> properties skipped. The tree is changed in place, so
  the parent that a hook sees has the children already left in their new state (\<open>ctx\<close>
  rebuilds it); the parent of the root is the root itself. The index in a position is the
  one the element had when its parent was entered, as in the walker's \<^verbatim>\<open>path()\<close>.
\<close>

fun walk :: "visitor \<Rightarrow> path \<Rightarrow> node option \<Rightarrow> node \<Rightarrow> error + (node option \<times> visitor)"
and walk_fields :: "visitor \<Rightarrow> path \<Rightarrow> Syntax \<Rightarrow> (string \<times> field) list \<Rightarrow>
      (string \<times> field) list \<Rightarrow> error + ((string \<times> field) list \<times> visitor)"
and walk_array :: "visitor \<Rightarrow> path \<Rightarrow> (node option list \<Rightarrow> node) \<Rightarrow> string \<Rightarrow> nat \<Rightarrow>
      node option list \<Rightarrow> node option list \<Rightarrow> error + (node option list \<times> visitor)"
where
  "walk v p parent (Node t fs) =
     (case enter v p (Node t fs) (case parent of None \<Rightarrow> Node t fs | Some q \<Rightarrow> q) of
        (skip, v1) \<Rightarrow>
          (case (if skip then Inr (fs, v1) else walk_fields v1 p t [] fs) of
             Inl e \<Rightarrow> Inl e
           | Inr (fs', v2) \<Rightarrow>
               (case leave v2 p (Node t fs')
                       (case parent of None \<Rightarrow> Node t fs' | Some q \<Rightarrow> q) of
                  Inl e \<Rightarrow> Inl e
                | Inr NoChange \<Rightarrow> Inr (Some (Node t fs'), v2)
                | Inr (ReplaceWith target) \<Rightarrow> Inr (Some target, v2)
                | Inr RemoveSelf \<Rightarrow> Inr (None, v2))))"
| "walk_fields v p t seen [] = Inr (seen, v)"
| "walk_fields v p t seen ((k, Prim x) # rest) = walk_fields v p t (seen @ [(k, Prim x)]) rest"
| "walk_fields v p t seen ((k, Single c) # rest) =
     (case walk v (Key k # p) (Some (Node t (seen @ (k, Single c) # rest))) c of
        Inl e \<Rightarrow> Inl e
      | Inr (r, v') \<Rightarrow>
          walk_fields v' p t
            (seen @ [(k, case r of None \<Rightarrow> Prim JNull | Some c' \<Rightarrow> Single c')]) rest)"
| "walk_fields v p t seen ((k, Array xs) # rest) =
     (case walk_array v p (\<lambda>ys. Node t (seen @ (k, Array ys) # rest)) k 0 [] xs of
        Inl e \<Rightarrow> Inl e
      | Inr (ys, v') \<Rightarrow> walk_fields v' p t (seen @ [(k, Array ys)]) rest)"
| "walk_array v p ctx k i seen [] = Inr (seen, v)"
| "walk_array v p ctx k i seen (None # xs) = walk_array v p ctx k (Suc i) (seen @ [None]) xs"
| "walk_array v p ctx k i seen (Some c # xs) =
     (case walk v (Item k i # p) (Some (ctx (seen @ Some c # xs))) c of
        Inl e \<Rightarrow> Inl e
      | Inr (r, v') \<Rightarrow>
          walk_array v' p ctx k (Suc i)
            (case r of None \<Rightarrow> seen | Some c' \<Rightarrow> seen @ [Some c']) xs)"

text \<open>\<^verbatim>\<open>replace(ast, createVisitor(options))\<close>: the root that the walker returns.\<close>

definition unassertAst :: "node \<Rightarrow> options \<Rightarrow> error + node option" where
  "unassertAst ast opts =
     (case walk (createVisitor opts) [] None ast of
        Inl e \<Rightarrow> Inl e
      | Inr (r, v) \<Rightarrow> Inr r)"

section \<open>Recognition and the inputs of the examples\<close>

text \<open>
  A node is recognised, under a parent of type \<open>parentType\<close>, when \<^verbatim>\<open>enter\<close>
  matches it, that is, when \<^verbatim>\<open>enter\<close> asks the walker to skip it. Beside the
  type of the parent, \<^verbatim>\<open>enter\<close> reads only the parent's \<^verbatim>\<open>declarations\<close>,
  and only after a match.
\<close>

definition recognized :: "visitor \<Rightarrow> node \<Rightarrow> Syntax \<Rightarrow> bool" where
  "recognized v currentNode parentType = fst (enter v [] currentNode (Node parentType []))"

text \<open>A tree is quiet when no node of it is recognised.\<close>

fun quiet :: "visitor \<Rightarrow> Syntax \<Rightarrow> node \<Rightarrow> bool"
and quiet_fields :: "visitor \<Rightarrow> Syntax \<Rightarrow> (string \<times> field) list \<Rightarrow> bool"
and quiet_array :: "visitor \<Rightarrow> Syntax \<Rightarrow> node option list \<Rightarrow> bool"
where
  "quiet v parentType (Node t fs) \<longleftrightarrow> \<not> recognized v (Node t fs) parentType \<and> quiet_fields v t fs"
| "quiet_fields v t [] \<longleftrightarrow> True"
| "quiet_fields v t ((k, Prim x) # rest) \<longleftrightarrow> quiet_fields v t rest"
| "quiet_fields v t ((k, Single c) # rest) \<longleftrightarrow> quiet v t c \<and> quiet_fields v t rest"
| "quiet_fields v t ((k, Array xs) # rest) \<longleftrightarrow> quiet_array v t xs \<and> quiet_fields v t rest"
| "quiet_array v t [] \<longleftrightarrow> True"
| "quiet_array v t (None # xs) \<longleftrightarrow> quiet_array v t xs"
| "quiet_array v t (Some c # xs) \<longleftrightarrow> quiet v t c \<and> quiet_array v t xs"

text \<open>\<^verbatim>\<open>obj.deepStrictEqual(a, b);\<close>\<close>

abbreviation deepStrictEqual_stmt :: "string \<Rightarrow> node" where
  "deepStrictEqual_stmt obj \<equiv>
     mk_exprStmt
       (mk_callExpr (mk_memberExpr (mk_identifier obj) (mk_identifier ''deepStrictEqual''))
          [mk_identifier ''a'', mk_identifier ''b''])"

text \<open>\<^verbatim>\<open>assert.rejects(fn)\<close>\<close>

abbreviation assert_rejects :: node where
  "assert_rejects \<equiv>
     mk_callExpr (mk_memberExpr (mk_identifier ''assert'') (mk_identifier ''rejects''))
       [mk_identifier ''fn'']"

text \<open>\<^verbatim>\<open>require('assert')\<close>\<close>

abbreviation require_assert :: node where
  "require_assert \<equiv> mk_callExpr (mk_identifier ''require'') [mk_literal (JString ''assert'')]"

text \<open>\<^verbatim>\<open>f(x);\<close>\<close>

abbreviation call_stmt :: "string \<Rightarrow> node" where
  "call_stmt f \<equiv> mk_exprStmt (mk_callExpr (mk_identifier f) [mk_identifier ''x''])"

text \<open>\<^verbatim>\<open>{ ok = 1, nested: { deep }, equal }\<close>\<close>

abbreviation destructured_pattern :: node where
  "destructured_pattern \<equiv>
     mk_objectPattern
       [mk_property (mk_identifier ''ok'')
          (mk_assignmentPattern (mk_identifier ''ok'') (mk_literal (JNumber 1))),
        mk_property (mk_identifier ''nested'')
          (mk_objectPattern [mk_property (mk_identifier ''deep'') (mk_identifier ''deep'')]),
        mk_property (mk_identifier ''equal'') (mk_identifier ''equal'')]"

text \<open>\<^verbatim>\<open>const { ok = 1, nested: { deep }, equal } = require('assert');\<close>\<close>

abbreviation destructured_decl :: node where
  "destructured_decl \<equiv>
     mk_varDecl ''const'' [mk_declarator destructured_pattern require_assert]"

text \<open>\<^verbatim>\<open>const assert = require('assert'); assert(x);\<close>\<close>

abbreviation require_then_call :: node where
  "require_then_call \<equiv>
     mk_program
       [mk_varDecl ''const'' [mk_declarator (mk_identifier ''assert'') require_assert],
        call_stmt ''assert'']"

text \<open>\<^verbatim>\<open>import { strict as assert } from 'node:assert'; f(); assert(x);\<close>\<close>

abbreviation import_then_call :: node where
  "import_then_call \<equiv>
     mk_program
       [mk_importDecl [mk_importSpecifier (mk_identifier ''strict'') (mk_identifier ''assert'')]
          (mk_literal (JString ''node:assert'')),
        mk_exprStmt (mk_callExpr (mk_identifier ''f'') []),
        call_stmt ''assert'']"

text \<open>\<^verbatim>\<open>x = 1\<close> and \<^verbatim>\<open>name = require('assert')\<close>, as declarators\<close>

abbreviation x_is_1 :: node where
  "x_is_1 \<equiv> mk_declarator (mk_identifier ''x'') (mk_literal (JNumber 1))"

abbreviation requires_assert :: "string \<Rightarrow> node" where
  "requires_assert nm \<equiv> mk_declarator (mk_identifier nm) require_assert"

text \<open>
  \<^verbatim>\<open>function () { ... }\<close> with the given statements as its body, and
  \<^verbatim>\<open>g = function () { ... }\<close> as a declarator
\<close>

abbreviation mk_functionExpr :: "node list \<Rightarrow> node" where
  "mk_functionExpr stmts \<equiv>
     Node (OtherSyntax ''FunctionExpression'')
       [(''id'', Prim JNull), (''params'', Array []),
        (''body'', Single (Node BlockStatement [(''body'', Array (map Some stmts))]))]"

abbreviation g_is_function :: "node list \<Rightarrow> node" where
  "g_is_function stmts \<equiv> mk_declarator (mk_identifier ''g'') (mk_functionExpr stmts)"

section \<open>Well-formed trees, and the transform applied twice\<close>

text \<open>The types of the nodes that \<^verbatim>\<open>leave\<close> removes or replaces.\<close>

definition removable :: "Syntax set" where
  "removable = {ImportDeclaration, VariableDeclarator, VariableDeclaration, ExpressionStatement}"

text \<open>
  Two facts of the ESTree grammar, for every node below the root: a
  \<^verbatim>\<open>VariableDeclarator\<close> is a child of a \<^verbatim>\<open>VariableDeclaration\<close>, and a child of a
  \<^verbatim>\<open>CallExpression\<close> (its callee, an argument) is neither a statement nor a declarator.
\<close>

fun wf :: "Syntax \<Rightarrow> node \<Rightarrow> bool"
and wf_fields :: "Syntax \<Rightarrow> (string \<times> field) list \<Rightarrow> bool"
and wf_array :: "Syntax \<Rightarrow> node option list \<Rightarrow> bool"
where
  "wf parentType (Node t fs) \<longleftrightarrow>
     (t = VariableDeclarator \<longrightarrow> parentType = VariableDeclaration) \<and>
     (parentType = CallExpression \<longrightarrow> t \<notin> removable) \<and>
     wf_fields t fs"
| "wf_fields t [] \<longleftrightarrow> True"
| "wf_fields t ((k, Prim x) # rest) \<longleftrightarrow> wf_fields t rest"
| "wf_fields t ((k, Single c) # rest) \<longleftrightarrow> wf t c \<and> wf_fields t rest"
| "wf_fields t ((k, Array xs) # rest) \<longleftrightarrow> wf_array t xs \<and> wf_fields t rest"
| "wf_array t [] \<longleftrightarrow> True"
| "wf_array t (None # xs) \<longleftrightarrow> wf_array t xs"
| "wf_array t (Some c # xs) \<longleftrightarrow> wf t c \<and> wf_array t xs"

definition wellFormed :: "node \<Rightarrow> bool" where
  "wellFormed ast = wf_fields (ntype ast) (nfields ast)"

text \<open>
  \<^verbatim>\<open>unassertAst(unassertAst(ast, options), options)\<close>. Had the first pass returned
  \<^verbatim>\<open>null\<close>, the second would throw in \<^verbatim>\<open>enter\<close>, which reads
  \<^verbatim>\<open>currentNode.type\<close>.
\<close>

definition unassertAst_twice :: "node \<Rightarrow> options \<Rightarrow> error + node option" where
  "unassertAst_twice ast opts =
     (case unassertAst ast opts of
        Inl e \<Rightarrow> Inl e
      | Inr None \<Rightarrow> Inl TypeError
      | Inr (Some once) \<Rightarrow> unassertAst once opts)"

section \<open>Relations used in the proofs\<close>

text \<open>The visitor's state only grows: the modules are fixed, names and marks are added.\<close>

definition extends :: "visitor \<Rightarrow> visitor \<Rightarrow> bool" where
  "extends v v' \<longleftrightarrow>
     targetModules v' = targetModules v \<and> targetVariables v \<subseteq> targetVariables v' \<and>
     nodeToRemove v \<subseteq> nodeToRemove v'"

text \<open>
  How the output of a walk relates to its input: a node keeps its type and its primitive
  properties, a child is walked in turn, set to \<^verbatim>\<open>null\<close> or replaced by a block, and
  an array loses elements of removable type only.
\<close>

inductive sim :: "node \<Rightarrow> node \<Rightarrow> bool"
and simF :: "(string \<times> field) list \<Rightarrow> (string \<times> field) list \<Rightarrow> bool"
and simA :: "node option list \<Rightarrow> node option list \<Rightarrow> bool"
where
  sim_refl: "sim n n"
| sim_block: "ntype n' = BlockStatement \<Longrightarrow> sim n n'"
| sim_node: "simF fs fs' \<Longrightarrow> sim (Node t fs) (Node t fs')"
| simF_refl: "simF fs fs"
| simF_prim: "simF fs fs' \<Longrightarrow> simF ((k, Prim x) # fs) ((k, Prim x) # fs')"
| simF_single: "sim c c' \<Longrightarrow> simF fs fs' \<Longrightarrow> simF ((k, Single c) # fs) ((k, Single c') # fs')"
| simF_null: "simF fs fs' \<Longrightarrow> simF ((k, Single c) # fs) ((k, Prim JNull) # fs')"
| simF_array: "simA xs ys \<Longrightarrow> simF fs fs' \<Longrightarrow> simF ((k, Array xs) # fs) ((k, Array ys) # fs')"
| simA_refl: "simA xs xs"
| simA_none: "simA xs ys \<Longrightarrow> simA (None # xs) (None # ys)"
| simA_some: "sim c c' \<Longrightarrow> simA xs ys \<Longrightarrow> simA (Some c # xs) (Some c' # ys)"
| simA_drop: "ntype c \<in> removable \<Longrightarrow> simA xs ys \<Longrightarrow> simA (Some c # xs) ys"

code_pred sim .

definition simO :: "node option \<Rightarrow> node option \<Rightarrow> bool" where
  "simO x x' \<longleftrightarrow> (case x' of None \<Rightarrow> True | Some c' \<Rightarrow> \<exists>c. x = Some c \<and> sim c c')"

definition wfO :: "node option \<Rightarrow> bool" where
  "wfO x \<longleftrightarrow> (case x of None \<Rightarrow> True | Some c \<Rightarrow> wf_fields (ntype c) (nfields c))"

section \<open>Properties\<close>

lemmas visitor_defs =
  unassertAst_def createVisitor_def assign_def defaultOptions_def enter_def leave_def
  get_def elems_def prim_def isAssertionFunction_def isAssertionVariableName_def
  isConsoleAssert_def add_def isNonBlockChildOfIfStatementOrLoop_def isBodyOfIfStatement_def
  isBodyOfIterationStatement_def isRemovalTarget_def isRequireAssert_def
  isRequireAssertStrict_def registerIdentifierAsAssertionVariable_def
  handleDestructuredAssertionAssignment_def handleImportSpecifiers_def

subsection \<open>What the hooks do to the visitor's state\<close>

lemma registerIdentifier_fields [simp]:
  "targetModules (registerIdentifierAsAssertionVariable v x) = targetModules v"
  "nodeToRemove (registerIdentifierAsAssertionVariable v x) = nodeToRemove v"
  "targetVariables (registerIdentifierAsAssertionVariable v x) =
     targetVariables v \<union> {s. isIdentifier x \<and> name_of x = Some s}"
  by (auto simp: registerIdentifierAsAssertionVariable_def split: option.splits)

lemma registerEach_fields [simp]:
  "targetModules (registerEach k v xs) = targetModules v"
  "nodeToRemove (registerEach k v xs) = nodeToRemove v"
  "targetVariables (registerEach k v xs) =
     targetVariables v \<union>
     {s. \<exists>x\<in>set xs. isIdentifier (prop_of x k) \<and> name_of (prop_of x k) = Some s}"
  by (induction xs arbitrary: v) auto

lemma handle_fields [simp]:
  "targetModules (handleDestructuredAssertionAssignment v n) = targetModules v"
  "nodeToRemove (handleDestructuredAssertionAssignment v n) = nodeToRemove v"
  "targetVariables (handleDestructuredAssertionAssignment v n) =
     targetVariables v \<union>
     {s. \<exists>x\<in>set (elems n ''properties'').
           isIdentifier (prop_of x ''value'') \<and> name_of (prop_of x ''value'') = Some s}"
  "targetModules (handleImportSpecifiers v n) = targetModules v"
  "nodeToRemove (handleImportSpecifiers v n) = nodeToRemove v"
  "targetVariables (handleImportSpecifiers v n) =
     targetVariables v \<union>
     {s. \<exists>x\<in>set (elems n ''specifiers'').
           isIdentifier (prop_of x ''local'') \<and> name_of (prop_of x ''local'') = Some s}"
  by (simp_all add: handleDestructuredAssertionAssignment_def handleImportSpecifiers_def)

lemma registerAssertionVariables_fields [simp]:
  "targetModules (registerAssertionVariables v x) = targetModules v"
  "nodeToRemove (registerAssertionVariables v x) = nodeToRemove v"
  by (cases x; simp)+

lemma registerAssertionVariables_mono:
  "targetVariables v \<subseteq> targetVariables (registerAssertionVariables v x)"
  by (cases x) auto

lemma add_fields [simp]:
  "targetModules (add p v) = targetModules v"
  "targetVariables (add p v) = targetVariables v"
  "nodeToRemove (add p v) = insert p (nodeToRemove v)"
  by (simp_all add: add_def)

lemma registerAssertionVariables_add_mono:
  "x \<in> targetVariables v \<Longrightarrow> x \<in> targetVariables (registerAssertionVariables (add p v) y)"
  using registerAssertionVariables_mono [of "add p v" y] by auto

lemma enter_targetVariables: "targetVariables v \<subseteq> targetVariables (snd (enter v p n q))"
  by (cases "ntype n") (auto simp: enter_def Let_def intro: registerAssertionVariables_add_mono)

lemma enter_targetModules [simp]: "targetModules (snd (enter v p n q)) = targetModules v"
  by (cases "ntype n") (auto simp: enter_def Let_def)

lemma enter_nodeToRemove: "nodeToRemove v \<subseteq> nodeToRemove (snd (enter v p n q))"
  by (cases "ntype n") (auto simp: enter_def Let_def)

lemma extends_refl [simp]: "extends v v"
  by (simp add: extends_def)

lemma extends_trans: "extends v v' \<Longrightarrow> extends v' v'' \<Longrightarrow> extends v v''"
  by (auto simp: extends_def)

lemma enter_extends: "extends v (snd (enter v p n q))"
  using enter_targetVariables [of v p n q] enter_nodeToRemove [of v p n q]
  by (simp add: extends_def)

lemma walk_extends:
  "walk v p parent n = Inr (r, v') \<Longrightarrow> extends v v'"
  "walk_fields v p t seen fs = Inr (fs', v') \<Longrightarrow> extends v v'"
  "walk_array v p ctx k i seen' xs = Inr (ys, v') \<Longrightarrow> extends v v'"
proof (induction v p parent n and v p t seen fs and v p ctx k i seen' xs
       arbitrary: r v' and fs' v' and ys v' rule: walk_walk_fields_walk_array.induct)
  case (1 v p parent t fs)
  obtain skip v1 where e: "enter v p (Node t fs) (case parent of None \<Rightarrow> Node t fs | Some q \<Rightarrow> q) = (skip, v1)"
    by (cases "enter v p (Node t fs) (case parent of None \<Rightarrow> Node t fs | Some q \<Rightarrow> q)")
  have m1: "extends v v1"
    using enter_extends [of v p "Node t fs" "case parent of None \<Rightarrow> Node t fs | Some q \<Rightarrow> q"] e by simp
  show ?case
  proof (cases skip)
    case True
    with "1.prems" e have "v' = v1"
      by (auto split: sum.splits outcome.splits)
    with m1 show ?thesis by simp
  next
    case False
    with "1.prems" e obtain fs' where w: "walk_fields v1 p t [] fs = Inr (fs', v')"
      by (auto split: sum.splits outcome.splits)
    from "1.IH" [OF e [symmetric] _ w] False have "extends v1 v'" by simp
    with m1 show ?thesis by (rule extends_trans)
  qed
next
  case (2 v p t seen)
  then show ?case by simp
next
  case (3 v p t seen k x rest)
  then show ?case by simp
next
  case (4 v p t seen k c rest)
  from "4.prems" obtain r v1 where
    w: "walk v (Key k # p) (Some (Node t (seen @ (k, Single c) # rest))) c = Inr (r, v1)"
    and f: "walk_fields v1 p t (seen @ [(k, case r of None \<Rightarrow> Prim JNull | Some c' \<Rightarrow> Single c')]) rest = Inr (fs', v')"
    by (auto split: sum.splits)
  from "4.IH"(1) [OF w] "4.IH"(2) [OF w refl f] show ?case by (rule extends_trans)
next
  case (5 v p t seen k xs rest)
  from "5.prems" obtain ys v1 where
    w: "walk_array v p (\<lambda>ys. Node t (seen @ (k, Array ys) # rest)) k 0 [] xs = Inr (ys, v1)"
    and f: "walk_fields v1 p t (seen @ [(k, Array ys)]) rest = Inr (fs', v')"
    by (auto split: sum.splits)
  from "5.IH"(1) [OF w] "5.IH"(2) [OF w refl f] show ?case by (rule extends_trans)
next
  case (6 v p ctx k i seen)
  then show ?case by simp
next
  case (7 v p ctx k i seen xs)
  then show ?case by simp
next
  case (8 v p ctx k i seen c xs)
  from "8.prems" obtain r v1 where
    w: "walk v (Item k i # p) (Some (ctx (seen @ Some c # xs))) c = Inr (r, v1)"
    and f: "walk_array v1 p ctx k (Suc i) (case r of None \<Rightarrow> seen | Some c' \<Rightarrow> seen @ [Some c']) xs = Inr (ys, v')"
    by (auto split: sum.splits)
  from "8.IH"(1) [OF w] "8.IH"(2) [OF w refl f] show ?case by (rule extends_trans)
qed

lemma walk_targetVariables:
  "walk v p parent n = Inr (r, v') \<Longrightarrow> targetVariables v \<subseteq> targetVariables v'"
  "walk_fields v p t seen fs = Inr (fs', v') \<Longrightarrow> targetVariables v \<subseteq> targetVariables v'"
  "walk_array v p ctx k i seen' xs = Inr (ys, v') \<Longrightarrow> targetVariables v \<subseteq> targetVariables v'"
  using walk_extends [of v p] by (auto simp: extends_def)

subsection \<open>A quiet tree is walked without a change\<close>

lemma enter_recognized: "fst (enter v p n q) = recognized v n (ntype q)"
  by (cases "ntype n") (auto simp: recognized_def enter_def Let_def)

lemma enter_unrecognized: "\<not> recognized v n (ntype q) \<Longrightarrow> enter v p n q = (False, v)"
  by (cases "ntype n") (auto simp: recognized_def enter_def Let_def split: if_splits)

lemma leave_unmarked: "p \<notin> nodeToRemove v \<Longrightarrow> leave v p n q = Inr NoChange"
  by (simp add: leave_def)

lemma walk_quiet:
  "quiet v (case parent of None \<Rightarrow> ntype n | Some q \<Rightarrow> ntype q) n \<Longrightarrow>
     \<forall>q\<in>nodeToRemove v. \<not> suffix p q \<Longrightarrow> walk v p parent n = Inr (Some n, v)"
  "quiet_fields v t fs \<Longrightarrow> \<forall>q\<in>nodeToRemove v. \<not> suffix p q \<Longrightarrow>
     walk_fields v p t seen fs = Inr (seen @ fs, v)"
  "quiet_array v (ntype (ctx [])) xs \<Longrightarrow> \<forall>ys. ntype (ctx ys) = ntype (ctx []) \<Longrightarrow>
     \<forall>q\<in>nodeToRemove v. \<not> suffix p q \<Longrightarrow>
     walk_array v p ctx k i seen' xs = Inr (seen' @ xs, v)"
proof (induction v p parent n and v p t seen fs and v p ctx k i seen' xs
       rule: walk_walk_fields_walk_array.induct)
  case (1 v p parent t fs)
  let ?q = "case parent of None \<Rightarrow> Node t fs | Some q \<Rightarrow> q"
  have ty: "ntype ?q = (case parent of None \<Rightarrow> ntype (Node t fs) | Some q \<Rightarrow> ntype q)"
    by (cases parent) simp_all
  from "1.prems"(1) have nr: "\<not> recognized v (Node t fs) (ntype ?q)" and qf: "quiet_fields v t fs"
    unfolding ty by simp_all
  have e: "enter v p (Node t fs) ?q = (False, v)"
    by (rule enter_unrecognized [OF nr])
  have f: "walk_fields v p t [] fs = Inr ([] @ fs, v)"
    by (rule "1.IH" [OF e [symmetric] _ qf "1.prems"(2)]) simp
  have "p \<notin> nodeToRemove v" using "1.prems"(2) by auto
  then have l: "leave v p (Node t fs) ?q = Inr NoChange" by (rule leave_unmarked)
  show ?case using e f l by simp
next
  case (2 v p t seen)
  then show ?case by simp
next
  case (3 v p t seen k x rest)
  then show ?case by simp
next
  case (4 v p t seen k c rest)
  have m: "\<forall>q\<in>nodeToRemove v. \<not> suffix (Key k # p) q"
    using "4.prems"(2) by (auto dest: suffix_ConsD)
  have w: "walk v (Key k # p) (Some (Node t (seen @ (k, Single c) # rest))) c = Inr (Some c, v)"
    using "4.prems"(1) by (intro "4.IH"(1) m) simp
  have "walk_fields v p t (seen @ [(k, Single c)]) rest = Inr ((seen @ [(k, Single c)]) @ rest, v)"
    using "4.IH"(2) [OF w refl] "4.prems" by simp
  with w show ?case by simp
next
  case (5 v p t seen k xs rest)
  have w: "walk_array v p (\<lambda>ys. Node t (seen @ (k, Array ys) # rest)) k 0 [] xs = Inr ([] @ xs, v)"
    using "5.prems" by (intro "5.IH"(1)) simp_all
  have "walk_fields v p t (seen @ [(k, Array xs)]) rest = Inr ((seen @ [(k, Array xs)]) @ rest, v)"
    using "5.IH"(2) [OF w [simplified] refl] "5.prems" by simp
  with w show ?case by simp
next
  case (6 v p ctx k i seen)
  then show ?case by simp
next
  case (7 v p ctx k i seen xs)
  then show ?case by simp
next
  case (8 v p ctx k i seen c xs)
  have m: "\<forall>q\<in>nodeToRemove v. \<not> suffix (Item k i # p) q"
    using "8.prems"(3) by (auto dest: suffix_ConsD)
  have ty: "ntype (ctx (seen @ Some c # xs)) = ntype (ctx [])"
    using "8.prems"(2) by blast
  have w: "walk v (Item k i # p) (Some (ctx (seen @ Some c # xs))) c = Inr (Some c, v)"
    using "8.prems"(1) by (intro "8.IH"(1) m) (simp add: ty)
  have "walk_array v p ctx k (Suc i) (seen @ [Some c]) xs = Inr ((seen @ [Some c]) @ xs, v)"
    using "8.IH"(2) [OF w refl] "8.prems" by simp
  with w show ?case by simp
qed

subsection \<open>Recognition is monotone in the target variables\<close>

lemma isAssertionVariableName_mono:
  "isAssertionVariableName v x \<Longrightarrow> targetVariables v \<subseteq> targetVariables v' \<Longrightarrow>
     isAssertionVariableName v' x"
  by (auto simp: isAssertionVariableName_def split: option.splits)

lemma isAssertionMethod_mono:
  "isAssertionMethod v x \<Longrightarrow> targetVariables v \<subseteq> targetVariables v' \<Longrightarrow>
     isAssertionMethod v' x"
proof (induction v x rule: isAssertionMethod.induct)
  case (1 v)
  then show ?case by simp
next
  case (2 v callee)
  then show ?case
    by (auto simp: Let_def split: if_splits intro: isAssertionVariableName_mono)
qed

lemma isAssertionModuleName_cong:
  "targetModules v = targetModules v' \<Longrightarrow> isAssertionModuleName v x = isAssertionModuleName v' x"
  by (cases x) (auto split: option.splits jsval.splits)

lemma isRemovalTarget_cong:
  "targetModules v = targetModules v' \<Longrightarrow> isRemovalTarget v x y = isRemovalTarget v' x y"
  by (simp add: isRemovalTarget_def isRequireAssert_def isRequireAssertStrict_def Let_def
        isAssertionModuleName_cong [of v v'])

lemma recognized_mono:
  "recognized v n pt \<Longrightarrow> targetVariables v \<subseteq> targetVariables v' \<Longrightarrow>
     targetModules v = targetModules v' \<Longrightarrow> recognized v' n pt"
  by (cases "ntype n")
     (auto simp: recognized_def enter_def Let_def isAssertionFunction_def
        isRemovalTarget_cong [of v v'] isAssertionModuleName_cong [of v v']
        split: if_splits
        intro: isAssertionVariableName_mono isAssertionMethod_mono)

lemma quiet_antimono:
  "quiet v' pt n \<Longrightarrow> targetVariables v \<subseteq> targetVariables v' \<Longrightarrow>
     targetModules v = targetModules v' \<Longrightarrow> quiet v pt n"
  "quiet_fields v' t fs \<Longrightarrow> targetVariables v \<subseteq> targetVariables v' \<Longrightarrow>
     targetModules v = targetModules v' \<Longrightarrow> quiet_fields v t fs"
  "quiet_array v' t xs \<Longrightarrow> targetVariables v \<subseteq> targetVariables v' \<Longrightarrow>
     targetModules v = targetModules v' \<Longrightarrow> quiet_array v t xs"
  by (induction v' pt n and v' t fs and v' t xs rule: quiet_quiet_fields_quiet_array.induct)
     (auto dest: recognized_mono)

lemma enter_declarator:
  "ntype d = VariableDeclarator \<Longrightarrow> isRemovalTarget v (get d ''id'') (get d ''init'') \<Longrightarrow>
     enter v p d parent =
       (True, registerAssertionVariables
                (if length (elems parent ''declarations'') = 1 then add (tl p) v else add p v)
                (get d ''id''))"
  by (simp add: enter_def)

lemma not_suffix_Cons_self: "\<not> suffix (x # p) p"
  by (auto simp: suffix_def)

lemma suffix_Cons_same_length: "suffix (x # p) (y # p) \<longleftrightarrow> x = y"
  by (auto simp: suffix_def Cons_eq_append_conv)

subsection \<open>Configuration\<close>

text \<open>
  C1, as the specification states it, fails: with no \<^verbatim>\<open>variables\<close> option the target
  variable set is not \<open>{assert}\<close>, and a supplied list is not merged with \<open>assert\<close>.
\<close>

theorem createVisitor_variables_counterexample:
  "targetVariables (createVisitor \<lparr>modules = None, variables = None\<rparr>) \<noteq> {''assert''} \<and>
   targetVariables (createVisitor \<lparr>modules = None, variables = Some [''invariant'']\<rparr>)
     \<noteq> {''invariant''} \<union> {''assert''}"
  by (simp add: createVisitor_def assign_def defaultOptions_def)

text \<open>
  C1, amended: \<^verbatim>\<open>defaultOptions\<close> has no \<^verbatim>\<open>variables\<close> key, so with the option
  omitted the target variable set of \<^verbatim>\<open>createVisitor\<close> starts empty; a supplied list
  replaces it, and the set is exactly the supplied names.
\<close>

theorem createVisitor_variables:
  "targetVariables (createVisitor opts) =
     (case variables opts of None \<Rightarrow> {} | Some names \<Rightarrow> set names)"
  by (simp add: createVisitor_def assign_def defaultOptions_def split: option.splits)

subsection \<open>Recognised calls\<close>

text \<open>
  C6, as the specification states it, fails: under the default configuration
  \<^verbatim>\<open>assert.deepStrictEqual(a, b);\<close> with no import or require before it is not
  removed. The output is the input.
\<close>

theorem default_deepStrictEqual_counterexample:
  "unassertAst (mk_program [deepStrictEqual_stmt ''assert''])
       \<lparr>modules = None, variables = None\<rparr>
     = Inr (Some (mk_program [deepStrictEqual_stmt ''assert''])) \<and>
   unassertAst (mk_program [deepStrictEqual_stmt ''assert''])
       \<lparr>modules = None, variables = None\<rparr>
     \<noteq> Inr (Some (mk_program []))"
  by (simp add: visitor_defs)

text \<open>
  C6, amended: with no import or require before it and no \<^verbatim>\<open>variables\<close> option,
  \<^verbatim>\<open>assert.deepStrictEqual(a, b);\<close> is preserved, as
  \<^verbatim>\<open>notAssert.deepStrictEqual(a, b);\<close> is. When the \<^verbatim>\<open>variables\<close> option
  names \<^verbatim>\<open>assert\<close>, the statement \<^verbatim>\<open>assert.deepStrictEqual(a, b);\<close> is removed, and
  \<^verbatim>\<open>notAssert.deepStrictEqual(a, b);\<close> is preserved as long as the option does not
  name \<^verbatim>\<open>notAssert\<close>.
\<close>

theorem deepStrictEqual_by_configuration:
  "unassertAst (mk_program [deepStrictEqual_stmt ''assert'']) \<lparr>modules = ms, variables = None\<rparr>
     = Inr (Some (mk_program [deepStrictEqual_stmt ''assert''])) \<and>
   unassertAst (mk_program [deepStrictEqual_stmt ''notAssert'']) \<lparr>modules = ms, variables = None\<rparr>
     = Inr (Some (mk_program [deepStrictEqual_stmt ''notAssert''])) \<and>
   (''assert'' \<in> set names \<longrightarrow>
      unassertAst (mk_program [deepStrictEqual_stmt ''assert''])
          \<lparr>modules = ms, variables = Some names\<rparr>
        = Inr (Some (mk_program []))) \<and>
   (''notAssert'' \<notin> set names \<longrightarrow>
      unassertAst (mk_program [deepStrictEqual_stmt ''notAssert''])
          \<lparr>modules = ms, variables = Some names\<rparr>
        = Inr (Some (mk_program [deepStrictEqual_stmt ''notAssert''])))"
  by (simp add: visitor_defs)

theorem deepStrictEqual_by_configuration_witness:
  "''assert'' \<in> set [''assert''] \<and> ''notAssert'' \<notin> set [''assert''] \<and>
   unassertAst (mk_program [deepStrictEqual_stmt ''assert''])
       \<lparr>modules = None, variables = Some [''assert'']\<rparr>
     = Inr (Some (mk_program [])) \<and>
   unassertAst (mk_program [deepStrictEqual_stmt ''notAssert''])
       \<lparr>modules = None, variables = Some [''assert'']\<rparr>
     = Inr (Some (mk_program [deepStrictEqual_stmt ''notAssert'']))"
  using deepStrictEqual_by_configuration [of None "[''assert'']"] by simp

text \<open>
  C7: \<^verbatim>\<open>isConsoleAssert\<close> holds exactly of a member expression whose object is an
  identifier named \<^verbatim>\<open>console\<close> and whose property is an identifier named
  \<^verbatim>\<open>assert\<close>; and a statement that is a call of such a callee, alone in a program, is
  removed whatever the options are.
\<close>

theorem console_assert_removed:
  "(isConsoleAssert callee \<longleftrightarrow>
      (\<exists>m obj prp. callee = Some m \<and> ntype m = MemberExpression \<and>
         get m ''object'' = Some obj \<and> ntype obj = Identifier \<and>
         prim obj ''name'' = Some (JString ''console'') \<and>
         get m ''property'' = Some prp \<and> ntype prp = Identifier \<and>
         prim prp ''name'' = Some (JString ''assert''))) \<and>
   (ntype c = CallExpression \<and> isConsoleAssert (get c ''callee'') \<longrightarrow>
      unassertAst (mk_program [mk_exprStmt c]) opts = Inr (Some (mk_program [])))"
proof (intro conjI impI)
  show "isConsoleAssert callee \<longleftrightarrow>
      (\<exists>m obj prp. callee = Some m \<and> ntype m = MemberExpression \<and>
         get m ''object'' = Some obj \<and> ntype obj = Identifier \<and>
         prim obj ''name'' = Some (JString ''console'') \<and>
         get m ''property'' = Some prp \<and> ntype prp = Identifier \<and>
         prim prp ''name'' = Some (JString ''assert''))"
  proof (cases callee)
    case None
    then show ?thesis by (simp add: isConsoleAssert_def)
  next
    case (Some m)
    then show ?thesis
      by (cases "get m ''object''"; cases "get m ''property''")
         (auto simp: isConsoleAssert_def split: option.splits jsval.splits)
  qed
next
  assume a: "ntype c = CallExpression \<and> isConsoleAssert (get c ''callee'')"
  obtain t fs where c: "c = Node t fs" by (cases c)
  from a c have t: "t = CallExpression" by simp
  from a have ca: "isConsoleAssert (get c ''callee'')" by simp
  show "unassertAst (mk_program [mk_exprStmt c]) opts = Inr (Some (mk_program []))"
    using ca unfolding c t
    by (simp add: unassertAst_def enter_def leave_def add_def
          isNonBlockChildOfIfStatementOrLoop_def isBodyOfIfStatement_def
          isBodyOfIterationStatement_def)
qed

theorem console_assert_removed_witness:
  "ntype (mk_callExpr (mk_memberExpr (mk_identifier ''console'') (mk_identifier ''assert''))
            [mk_identifier ''x'']) = CallExpression \<and>
   isConsoleAssert (Some (mk_memberExpr (mk_identifier ''console'') (mk_identifier ''assert''))) \<and>
   unassertAst
     (mk_program [mk_exprStmt
        (mk_callExpr (mk_memberExpr (mk_identifier ''console'') (mk_identifier ''assert''))
           [mk_identifier ''x''])])
     \<lparr>modules = Some [], variables = Some []\<rparr>
   = Inr (Some (mk_program []))"
  using console_assert_removed
    [of "Some (mk_memberExpr (mk_identifier ''console'') (mk_identifier ''assert''))"
        "mk_callExpr (mk_memberExpr (mk_identifier ''console'') (mk_identifier ''assert''))
           [mk_identifier ''x'']"
        "\<lparr>modules = Some [], variables = Some []\<rparr>"]
  by (simp add: get_def prim_def isConsoleAssert_def)

text \<open>
  C8: when the \<^verbatim>\<open>variables\<close> option names \<^verbatim>\<open>assert\<close>, the statement
  \<^verbatim>\<open>await assert.rejects(fn);\<close> is removed; the declaration
  \<^verbatim>\<open>const r = await assert.rejects(fn);\<close> is left as it is.
\<close>

theorem await_assertion:
  "(''assert'' \<in> set names \<longrightarrow>
      unassertAst (mk_program [mk_exprStmt (mk_awaitExpr assert_rejects)])
          \<lparr>modules = ms, variables = Some names\<rparr>
        = Inr (Some (mk_program []))) \<and>
   unassertAst
       (mk_program [mk_varDecl ''const''
          [mk_declarator (mk_identifier ''r'') (mk_awaitExpr assert_rejects)]])
       opts
     = Inr (Some (mk_program [mk_varDecl ''const''
          [mk_declarator (mk_identifier ''r'') (mk_awaitExpr assert_rejects)]]))"
  by (simp add: visitor_defs)

theorem await_assertion_witness:
  "''assert'' \<in> set [''assert''] \<and>
   unassertAst (mk_program [mk_exprStmt (mk_awaitExpr assert_rejects)])
       \<lparr>modules = None, variables = Some [''assert'']\<rparr>
     = Inr (Some (mk_program [])) \<and>
   unassertAst
       (mk_program [mk_varDecl ''const''
          [mk_declarator (mk_identifier ''r'') (mk_awaitExpr assert_rejects)]])
       \<lparr>modules = None, variables = Some [''assert'']\<rparr>
     = Inr (Some (mk_program [mk_varDecl ''const''
          [mk_declarator (mk_identifier ''r'') (mk_awaitExpr assert_rejects)]]))"
  using await_assertion [of "[''assert'']" None "\<lparr>modules = None, variables = Some [''assert'']\<rparr>"]
  by simp

subsection \<open>The edit made on leaving a marked node\<close>

text \<open>
  C2 at \<^verbatim>\<open>if (c) await assert.rejects(fn);\<close> with \<^verbatim>\<open>assert\<close> a target variable: the
  marked statement is the consequent of the \<^verbatim>\<open>if\<close>, and it is not a block. It is not
  replaced by an empty block: the consequent is set to \<^verbatim>\<open>null\<close>, and so is the
  body of \<^verbatim>\<open>while (c) await assert.rejects(fn);\<close>. The plain call
  \<^verbatim>\<open>if (c) assert(x);\<close> in the same place is replaced by an empty block.
\<close>

theorem await_consequent_set_to_null:
  "unassertAst
     (mk_program [mk_ifStmt (mk_identifier ''c'')
        (Single (mk_exprStmt (mk_awaitExpr assert_rejects))) (Prim JNull)])
     \<lparr>modules = None, variables = Some [''assert'']\<rparr>
   = Inr (Some (mk_program [mk_ifStmt (mk_identifier ''c'') (Prim JNull) (Prim JNull)])) \<and>
   unassertAst
     (mk_program [mk_whileStmt (mk_identifier ''c'')
        (Single (mk_exprStmt (mk_awaitExpr assert_rejects)))])
     \<lparr>modules = None, variables = Some [''assert'']\<rparr>
   = Inr (Some (mk_program [mk_whileStmt (mk_identifier ''c'') (Prim JNull)])) \<and>
   unassertAst
     (mk_program [mk_ifStmt (mk_identifier ''c'') (Single (call_stmt ''assert'')) (Prim JNull)])
     \<lparr>modules = None, variables = Some [''assert'']\<rparr>
   = Inr (Some (mk_program [mk_ifStmt (mk_identifier ''c'') (Single mk_emptyBlock) (Prim JNull)]))"
  by (simp add: visitor_defs)

subsection \<open>Conservation\<close>

text \<open>
  C5: when no node of the input is recognised under the visitor made from the options (no
  import of an assertion module, no binding or assignment of a \<^verbatim>\<open>require\<close> of one, no
  statement that is a call or an awaited call of an assertion function, an assertion
  method or \<^verbatim>\<open>console.assert\<close>), the output tree is the input tree.
\<close>

theorem quiet_unchanged:
  "quiet (createVisitor opts) (ntype ast) ast \<Longrightarrow> unassertAst ast opts = Inr (Some ast)"
proof -
  assume q: "quiet (createVisitor opts) (ntype ast) ast"
  have "walk (createVisitor opts) [] None ast = Inr (Some ast, createVisitor opts)"
    by (rule walk_quiet(1)) (use q in \<open>simp_all add: createVisitor_def Let_def\<close>)
  then show ?thesis by (simp add: unassertAst_def)
qed

theorem quiet_unchanged_witness:
  "quiet (createVisitor \<lparr>modules = None, variables = None\<rparr>)
     (ntype (mk_program [call_stmt ''f'', deepStrictEqual_stmt ''notAssert'']))
     (mk_program [call_stmt ''f'', deepStrictEqual_stmt ''notAssert'']) \<and>
   unassertAst (mk_program [call_stmt ''f'', deepStrictEqual_stmt ''notAssert''])
       \<lparr>modules = None, variables = None\<rparr>
     = Inr (Some (mk_program [call_stmt ''f'', deepStrictEqual_stmt ''notAssert'']))"
proof -
  have q: "quiet (createVisitor \<lparr>modules = None, variables = None\<rparr>)
     (ntype (mk_program [call_stmt ''f'', deepStrictEqual_stmt ''notAssert'']))
     (mk_program [call_stmt ''f'', deepStrictEqual_stmt ''notAssert''])"
    by (simp add: recognized_def visitor_defs)
  from q quiet_unchanged [OF q] show ?thesis by (rule conjI)
qed

subsection \<open>The target variable set only grows\<close>

text \<open>
  C9: the target variable set never loses a name during a traversal. \<^verbatim>\<open>enter\<close>, the
  only hook that changes the visitor's state, returns a superset of the set it was given,
  and so the set after the walk of a node, of the properties of a node or of the elements
  of an array contains the set before.
\<close>

theorem targetVariables_grows:
  "targetVariables v \<subseteq> targetVariables (snd (enter v p n q)) \<and>
   (walk v p parent n = Inr (r, v1) \<longrightarrow> targetVariables v \<subseteq> targetVariables v1) \<and>
   (walk_fields v p t seen fs = Inr (fs', v2) \<longrightarrow> targetVariables v \<subseteq> targetVariables v2) \<and>
   (walk_array v p ctx k i seen' xs = Inr (ys, v3) \<longrightarrow> targetVariables v \<subseteq> targetVariables v3)"
  by (intro conjI impI) (rule enter_targetVariables, (erule walk_targetVariables)+)

theorem targetVariables_grows_witness:
  "walk (createVisitor \<lparr>modules = None, variables = None\<rparr>) [] None require_then_call =
     Inr (Some (mk_program []),
          \<lparr>targetModules = {''assert'', ''assert/strict'', ''node:assert'', ''node:assert/strict''},
            targetVariables = {''assert''},
            nodeToRemove = {[Item ''body'' 1], [Item ''body'' 0]}\<rparr>) \<and>
   targetVariables (createVisitor \<lparr>modules = None, variables = None\<rparr>) \<subseteq> {''assert''}"
proof -
  have w: "walk (createVisitor \<lparr>modules = None, variables = None\<rparr>) [] None require_then_call =
     Inr (Some (mk_program []),
          \<lparr>targetModules = {''assert'', ''assert/strict'', ''node:assert'', ''node:assert/strict''},
            targetVariables = {''assert''},
            nodeToRemove = {[Item ''body'' 1], [Item ''body'' 0]}\<rparr>)"
    by (simp add: visitor_defs)
  from targetVariables_grows
    [of "createVisitor \<lparr>modules = None, variables = None\<rparr>" "[]" require_then_call
        require_then_call None "Some (mk_program [])"
        "\<lparr>targetModules = {''assert'', ''assert/strict'', ''node:assert'', ''node:assert/strict''},
          targetVariables = {''assert''},
          nodeToRemove = {[Item ''body'' 1], [Item ''body'' 0]}\<rparr>"] w
  have "targetVariables (createVisitor \<lparr>modules = None, variables = None\<rparr>) \<subseteq> {''assert''}"
    by simp
  with w show ?thesis by (rule conjI)
qed

subsection \<open>Destructured bindings\<close>

text \<open>
  C10: on a declarator that binds an object pattern to a recognised \<^verbatim>\<open>require\<close>,
  \<^verbatim>\<open>enter\<close> marks the declarator (or its declaration, when it is the only one) and
  registers exactly the names of the properties whose value is an identifier. A property
  whose value is a pattern with a default or a nested pattern adds no name, so in
  \<^verbatim>\<open>const { ok = 1, nested: { deep }, equal } = require('assert'); ok(x); deep(x); equal(x);\<close>
  the declaration and \<^verbatim>\<open>equal(x);\<close> are removed and the calls of \<^verbatim>\<open>ok\<close> and
  \<^verbatim>\<open>deep\<close> stay.
\<close>

theorem destructured_require_registers_identifiers:
  "(ntype d = VariableDeclarator \<and> get d ''id'' = Some pat \<and> ntype pat = ObjectPattern \<and>
    isRemovalTarget v (Some pat) (get d ''init'') \<longrightarrow>
      fst (enter v p d parent) \<and>
      targetVariables (snd (enter v p d parent)) =
        targetVariables v \<union>
        {s. \<exists>x\<in>set (elems pat ''properties'').
              isIdentifier (prop_of x ''value'') \<and> name_of (prop_of x ''value'') = Some s} \<and>
      nodeToRemove (snd (enter v p d parent)) =
        insert (if length (elems parent ''declarations'') = 1 then tl p else p) (nodeToRemove v)) \<and>
   unassertAst
     (mk_program [destructured_decl, call_stmt ''ok'', call_stmt ''deep'', call_stmt ''equal''])
     \<lparr>modules = None, variables = None\<rparr>
   = Inr (Some (mk_program [call_stmt ''ok'', call_stmt ''deep'']))"
proof (intro conjI impI)
  assume a: "ntype d = VariableDeclarator \<and> get d ''id'' = Some pat \<and> ntype pat = ObjectPattern \<and>
    isRemovalTarget v (Some pat) (get d ''init'')"
  then have e: "enter v p d parent =
      (True, registerAssertionVariables
               (if length (elems parent ''declarations'') = 1 then add (tl p) v else add p v)
               (Some pat))"
    by (simp add: enter_def)
  show "fst (enter v p d parent)" by (simp add: e)
  show "targetVariables (snd (enter v p d parent)) =
        targetVariables v \<union>
        {s. \<exists>x\<in>set (elems pat ''properties'').
              isIdentifier (prop_of x ''value'') \<and> name_of (prop_of x ''value'') = Some s}"
    using a by (simp add: e)
  show "nodeToRemove (snd (enter v p d parent)) =
        insert (if length (elems parent ''declarations'') = 1 then tl p else p) (nodeToRemove v)"
    by (simp add: e)
next
  show "unassertAst
     (mk_program [destructured_decl, call_stmt ''ok'', call_stmt ''deep'', call_stmt ''equal''])
     \<lparr>modules = None, variables = None\<rparr>
   = Inr (Some (mk_program [call_stmt ''ok'', call_stmt ''deep'']))"
    by (simp add: visitor_defs)
qed

theorem destructured_require_registers_identifiers_witness:
  "ntype (mk_declarator destructured_pattern require_assert) = VariableDeclarator \<and>
   get (mk_declarator destructured_pattern require_assert) ''id'' = Some destructured_pattern \<and>
   ntype destructured_pattern = ObjectPattern \<and>
   isRemovalTarget (createVisitor \<lparr>modules = None, variables = None\<rparr>)
     (Some destructured_pattern)
     (get (mk_declarator destructured_pattern require_assert) ''init'') \<and>
   targetVariables
     (snd (enter (createVisitor \<lparr>modules = None, variables = None\<rparr>)
             [Item ''declarations'' 0, Item ''body'' 0]
             (mk_declarator destructured_pattern require_assert) destructured_decl))
     = {''equal''}"
proof -
  have h: "ntype (mk_declarator destructured_pattern require_assert) = VariableDeclarator \<and>
     get (mk_declarator destructured_pattern require_assert) ''id'' = Some destructured_pattern \<and>
     ntype destructured_pattern = ObjectPattern \<and>
     isRemovalTarget (createVisitor \<lparr>modules = None, variables = None\<rparr>)
       (Some destructured_pattern)
       (get (mk_declarator destructured_pattern require_assert) ''init'')"
    by (simp add: visitor_defs)
  from destructured_require_registers_identifiers
    [of "mk_declarator destructured_pattern require_assert" destructured_pattern
        "createVisitor \<lparr>modules = None, variables = None\<rparr>"
        "[Item ''declarations'' 0, Item ''body'' 0]" destructured_decl] h
  have "targetVariables
     (snd (enter (createVisitor \<lparr>modules = None, variables = None\<rparr>)
             [Item ''declarations'' 0, Item ''body'' 0]
             (mk_declarator destructured_pattern require_assert) destructured_decl))
     = targetVariables (createVisitor \<lparr>modules = None, variables = None\<rparr>) \<union>
        {s. \<exists>x\<in>set (elems destructured_pattern ''properties'').
              isIdentifier (prop_of x ''value'') \<and> name_of (prop_of x ''value'') = Some s}"
    by blast
  also have "\<dots> = {''equal''}"
    by (simp add: createVisitor_def assign_def defaultOptions_def get_def elems_def prim_def)
  finally show ?thesis using h by blast
qed

subsection \<open>The output of a walk\<close>

lemma leave_cases:
  "leave v p n q = Inr NoChange \<and> \<not> (p \<in> nodeToRemove v \<and> ntype n \<in> removable) \<or>
   leave v p n q = Inr RemoveSelf \<and> p \<in> nodeToRemove v \<and> ntype n \<in> removable \<and> p \<noteq> [] \<or>
   leave v p n q = Inr (ReplaceWith mk_emptyBlock) \<and> p \<in> nodeToRemove v \<and> ntype n \<in> removable
     \<and> p \<noteq> [] \<or>
   leave v p n q = Inl TypeError \<and> p \<in> nodeToRemove v \<and> ntype n \<in> removable \<and> p = []"
  by (cases p) (auto simp: leave_def removable_def)

lemma walk_elim:
  assumes "walk v p parent (Node t fs) = Inr (r, v')"
  obtains skip v1 fs' out where
    "enter v p (Node t fs) (case parent of None \<Rightarrow> Node t fs | Some q \<Rightarrow> q) = (skip, v1)"
    "skip \<Longrightarrow> fs' = fs \<and> v' = v1"
    "\<not> skip \<Longrightarrow> walk_fields v1 p t [] fs = Inr (fs', v')"
    "leave v' p (Node t fs') (case parent of None \<Rightarrow> Node t fs' | Some q \<Rightarrow> q) = Inr out"
    "r = (case out of NoChange \<Rightarrow> Some (Node t fs') | ReplaceWith x \<Rightarrow> Some x | RemoveSelf \<Rightarrow> None)"
proof -
  obtain skip v1 where e: "enter v p (Node t fs) (case parent of None \<Rightarrow> Node t fs | Some q \<Rightarrow> q) = (skip, v1)"
    by (cases "enter v p (Node t fs) (case parent of None \<Rightarrow> Node t fs | Some q \<Rightarrow> q)")
  show thesis
  proof (cases skip)
    case True
    with assms e obtain out where
      "leave v1 p (Node t fs) (case parent of None \<Rightarrow> Node t fs | Some q \<Rightarrow> q) = Inr out"
      "v' = v1"
      "r = (case out of NoChange \<Rightarrow> Some (Node t fs) | ReplaceWith x \<Rightarrow> Some x | RemoveSelf \<Rightarrow> None)"
      by (auto split: sum.splits outcome.splits)
    with True e show ?thesis by (intro that [of skip v1 fs out]) auto
  next
    case False
    with assms e obtain fs' out where
      "walk_fields v1 p t [] fs = Inr (fs', v')"
      "leave v' p (Node t fs') (case parent of None \<Rightarrow> Node t fs' | Some q \<Rightarrow> q) = Inr out"
      "r = (case out of NoChange \<Rightarrow> Some (Node t fs') | ReplaceWith x \<Rightarrow> Some x | RemoveSelf \<Rightarrow> None)"
      by (auto split: sum.splits outcome.splits)
    with False e show ?thesis by (intro that [of skip v1 fs' out]) auto
  qed
qed

lemma sim_emptyBlock [simp]: "sim n mk_emptyBlock"
  by (rule sim_block) simp

lemma walk_sim:
  "walk v p parent n = Inr (r, v') \<Longrightarrow>
     (case r of None \<Rightarrow> ntype n \<in> removable | Some n' \<Rightarrow> sim n n')"
  "walk_fields v p t seen fs = Inr (out, v') \<Longrightarrow> \<exists>fs'. out = seen @ fs' \<and> simF fs fs'"
  "walk_array v p ctx k i seen' xs = Inr (out', v') \<Longrightarrow> \<exists>ys. out' = seen' @ ys \<and> simA xs ys"
proof (induction v p parent n and v p t seen fs and v p ctx k i seen' xs
       arbitrary: r v' and out v' and out' v' rule: walk_walk_fields_walk_array.induct)
  case (1 v p parent t fs)
  from "1.prems" obtain skip v1 fs' out where
    e: "enter v p (Node t fs) (case parent of None \<Rightarrow> Node t fs | Some q \<Rightarrow> q) = (skip, v1)"
    and sk: "skip \<Longrightarrow> fs' = fs \<and> v' = v1"
    and ns: "\<not> skip \<Longrightarrow> walk_fields v1 p t [] fs = Inr (fs', v')"
    and l: "leave v' p (Node t fs') (case parent of None \<Rightarrow> Node t fs' | Some q \<Rightarrow> q) = Inr out"
    and r: "r = (case out of NoChange \<Rightarrow> Some (Node t fs') | ReplaceWith x \<Rightarrow> Some x | RemoveSelf \<Rightarrow> None)"
    by (rule walk_elim) blast
  have s: "simF fs fs'"
  proof (cases skip)
    case True
    with sk show ?thesis by (simp add: simF_refl)
  next
    case False
    from "1.IH" [OF e [symmetric] False ns [OF False]] show ?thesis by simp
  qed
  from leave_cases [of v' p "Node t fs'" "case parent of None \<Rightarrow> Node t fs' | Some q \<Rightarrow> q"] l r s
  show ?case by (auto intro: sim_node)
next
  case (2 v p t seen)
  then show ?case by (simp add: simF_refl)
next
  case (3 v p t seen k x rest)
  from "3.IH" [OF "3.prems" [simplified]] show ?case by (auto intro: simF_prim)
next
  case (4 v p t seen k c rest)
  from "4.prems" obtain r v1 where
    w: "walk v (Key k # p) (Some (Node t (seen @ (k, Single c) # rest))) c = Inr (r, v1)"
    and f: "walk_fields v1 p t (seen @ [(k, case r of None \<Rightarrow> Prim JNull | Some c' \<Rightarrow> Single c')]) rest = Inr (out, v')"
    by (auto split: sum.splits)
  from "4.IH"(1) [OF w] "4.IH"(2) [OF w refl f] show ?case
    by (cases r) (auto intro: simF_null simF_single)
next
  case (5 v p t seen k xs rest)
  from "5.prems" obtain ys v1 where
    w: "walk_array v p (\<lambda>ys. Node t (seen @ (k, Array ys) # rest)) k 0 [] xs = Inr (ys, v1)"
    and f: "walk_fields v1 p t (seen @ [(k, Array ys)]) rest = Inr (out, v')"
    by (auto split: sum.splits)
  from "5.IH"(1) [OF w] "5.IH"(2) [OF w refl f] show ?case
    by (auto intro: simF_array)
next
  case (6 v p ctx k i seen)
  then show ?case by (simp add: simA_refl)
next
  case (7 v p ctx k i seen xs)
  from "7.IH" [OF "7.prems" [simplified]] show ?case by (auto intro: simA_none)
next
  case (8 v p ctx k i seen c xs)
  from "8.prems" obtain r v1 where
    w: "walk v (Item k i # p) (Some (ctx (seen @ Some c # xs))) c = Inr (r, v1)"
    and f: "walk_array v1 p ctx k (Suc i) (case r of None \<Rightarrow> seen | Some c' \<Rightarrow> seen @ [Some c']) xs = Inr (out', v')"
    by (auto split: sum.splits)
  from "8.IH"(1) [OF w] "8.IH"(2) [OF w refl f] show ?case
    by (cases r) (auto intro: simA_drop simA_some)
qed

subsection \<open>A node recognised after the walk was recognised before it\<close>

lemmas sim_intros = sim_simF_simA.intros

lemma sim_inversion:
  "sim n n' \<Longrightarrow> ntype n' \<noteq> BlockStatement \<longrightarrow> ntype n = ntype n' \<and> simF (nfields n) (nfields n')"
  "simF fs fs' \<Longrightarrow>
     (\<forall>k c'. map_of fs' k = Some (Single c') \<longrightarrow> (\<exists>c. map_of fs k = Some (Single c) \<and> sim c c')) \<and>
     (\<forall>k s. map_of fs' k = Some (Prim (JString s)) \<longrightarrow> map_of fs k = Some (Prim (JString s))) \<and>
     (\<forall>k ys. map_of fs' k = Some (Array ys) \<longrightarrow> (\<exists>xs. map_of fs k = Some (Array xs) \<and> simA xs ys))"
  "simA xs ys \<Longrightarrow>
     (\<forall>c. Some c \<in> set xs \<longrightarrow> ntype c \<notin> removable) \<longrightarrow>
     (\<forall>a'. (case ys of [] \<Rightarrow> None | a # _ \<Rightarrow> a) = Some a' \<longrightarrow>
        (\<exists>a. (case xs of [] \<Rightarrow> None | a # _ \<Rightarrow> a) = Some a \<and> sim a a'))"
proof (induction rule: sim_simF_simA.inducts)
  case (sim_refl n)
  then show ?case by (simp add: sim_intros)
next
  case (simF_refl fs)
  then show ?case by (auto intro: sim_intros)
next
  case (simA_refl xs)
  then show ?case by (auto intro: sim_intros split: list.splits)
qed (auto split: list.splits)

lemma sim_fields: "sim n n' \<Longrightarrow> ntype n' \<noteq> BlockStatement \<Longrightarrow> simF (nfields n) (nfields n')"
  and sim_ntype: "sim n n' \<Longrightarrow> ntype n' \<noteq> BlockStatement \<Longrightarrow> ntype n = ntype n'"
  using sim_inversion(1) by blast+

lemma simF_Single:
  "simF fs fs' \<Longrightarrow> map_of fs' k = Some (Single c') \<Longrightarrow> \<exists>c. map_of fs k = Some (Single c) \<and> sim c c'"
  using sim_inversion(2) by blast

lemma simF_String:
  "simF fs fs' \<Longrightarrow> map_of fs' k = Some (Prim (JString s)) \<Longrightarrow> map_of fs k = Some (Prim (JString s))"
  using sim_inversion(2) by blast

lemma simF_Array:
  "simF fs fs' \<Longrightarrow> map_of fs' k = Some (Array ys) \<Longrightarrow> \<exists>xs. map_of fs k = Some (Array xs) \<and> simA xs ys"
  using sim_inversion(2) by blast

lemma simA_first:
  "simA xs ys \<Longrightarrow> \<forall>c. Some c \<in> set xs \<longrightarrow> ntype c \<notin> removable \<Longrightarrow>
     (case ys of [] \<Rightarrow> None | a # _ \<Rightarrow> a) = Some a' \<Longrightarrow>
     \<exists>a. (case xs of [] \<Rightarrow> None | a # _ \<Rightarrow> a) = Some a \<and> sim a a'"
  using sim_inversion(3) by blast

lemma simO_None [simp]: "simO x None"
  by (simp add: simO_def)

lemma simO_Some: "simO x (Some c') \<longleftrightarrow> (\<exists>c. x = Some c \<and> sim c c')"
  by (simp add: simO_def)

lemma simO_get: "sim n n' \<Longrightarrow> ntype n' \<noteq> BlockStatement \<Longrightarrow> simO (get n k) (get n' k)"
proof (cases "get n' k")
  case None
  then show ?thesis by simp
next
  case (Some c')
  assume "sim n n'" "ntype n' \<noteq> BlockStatement"
  then have f: "simF (nfields n) (nfields n')" by (rule sim_fields)
  from Some have "map_of (nfields n') k = Some (Single c')"
    by (auto simp: get_def split: option.splits field.splits)
  from simF_Single [OF f this] Some show ?thesis
    by (auto simp: simO_Some get_def)
qed

lemma sim_prim:
  assumes "sim n n'" "ntype n' \<noteq> BlockStatement" "prim n' k = Some (JString s)"
  shows "prim n k = Some (JString s)"
proof -
  from assms(1,2) have f: "simF (nfields n) (nfields n')" by (rule sim_fields)
  from assms(3) have "map_of (nfields n') k = Some (Prim (JString s))"
    by (auto simp: prim_def split: option.splits field.splits)
  from simF_String [OF f this] show ?thesis by (simp add: prim_def)
qed

lemma simO_has_type:
  "simO x x' \<Longrightarrow> has_type T x' \<Longrightarrow> T \<noteq> BlockStatement \<Longrightarrow> has_type T x"
  by (cases x') (auto simp: simO_Some dest: sim_ntype)

lemma simO_prop_of:
  "simO x x' \<Longrightarrow> has_type T x' \<Longrightarrow> T \<noteq> BlockStatement \<Longrightarrow> simO (prop_of x k) (prop_of x' k)"
  by (cases x') (auto simp: simO_Some intro: simO_get)

lemma simO_name_of:
  "simO x x' \<Longrightarrow> has_type T x' \<Longrightarrow> T \<noteq> BlockStatement \<Longrightarrow> name_of x' = Some s \<Longrightarrow>
     name_of x = Some s"
  by (cases x')
     (auto simp: simO_Some dest!: sim_prim [where k = "''name''"] split: option.splits jsval.splits)

lemma simO_isAssertionVariableName:
  "simO x x' \<Longrightarrow> isAssertionVariableName v x' \<Longrightarrow> isAssertionVariableName v x"
  unfolding isAssertionVariableName_def
  by (auto split: option.splits dest: simO_has_type simO_name_of [where T = Identifier])

lemma simO_isAssertionModuleName:
  assumes "simO x x'" "isAssertionModuleName v x'"
  shows "isAssertionModuleName v x"
proof -
  from assms(2) obtain lit' s where x': "x' = Some lit'" and t: "ntype lit' = Literal"
    and pv: "prim lit' ''value'' = Some (JString s)" and m: "s \<in> targetModules v"
    by (cases x') (auto split: option.splits jsval.splits)
  from assms(1) x' obtain lit where x: "x = Some lit" and sm: "sim lit lit'"
    by (auto simp: simO_Some)
  from t have nb: "ntype lit' \<noteq> BlockStatement" by simp
  from sim_ntype [OF sm nb] sim_prim [OF sm nb pv] t m x show ?thesis by simp
qed

lemma simO_isAssertionMethod:
  "isAssertionMethod v x' \<Longrightarrow> simO x x' \<Longrightarrow> isAssertionMethod v x"
proof (induction v x' arbitrary: x rule: isAssertionMethod.induct)
  case (1 v)
  then show ?case by simp
next
  case (2 v callee')
  from "2.prems" have m': "isMemberExpression (Some callee')"
    by (simp split: if_splits)
  from "2.prems"(2) obtain callee where x: "x = Some callee" and s: "sim callee callee'"
    by (auto simp: simO_Some)
  from m' have nb: "ntype callee' \<noteq> BlockStatement" by simp
  from sim_ntype [OF s nb] m' have m: "isMemberExpression (Some callee)" by simp
  have o: "simO (get callee ''object'') (get callee' ''object'')"
    by (rule simO_get [OF s nb])
  show ?case
  proof (cases "isMemberExpression (get callee' ''object'')")
    case True
    with "2.prems"(1) m' have "isAssertionMethod v (get callee' ''object'')"
      by (simp add: Let_def)
    from "2.IH" [OF _ refl True this o] m' have "isAssertionMethod v (get callee ''object'')"
      by simp
    moreover from simO_has_type [OF o True] have "isMemberExpression (get callee ''object'')"
      by simp
    ultimately show ?thesis using m x by (simp add: Let_def)
  next
    case False
    with "2.prems"(1) m' have a': "isAssertionVariableName v (get callee' ''object'')"
      by (simp add: Let_def)
    from simO_isAssertionVariableName [OF o a']
    have a: "isAssertionVariableName v (get callee ''object'')" .
    then have "\<not> isMemberExpression (get callee ''object'')"
      by (cases "get callee ''object''") (auto simp: isAssertionVariableName_def)
    with a m x show ?thesis by (simp add: Let_def)
  qed
qed

lemma simO_isConsoleAssert: "simO x x' \<Longrightarrow> isConsoleAssert x' \<Longrightarrow> isConsoleAssert x"
  unfolding isConsoleAssert_def Let_def
  by (auto split: if_splits
        dest: simO_has_type
        intro: simO_has_type [OF simO_prop_of [where T = MemberExpression]]
               simO_name_of [OF simO_prop_of [where T = MemberExpression], where T = Identifier])

lemma wf_array_call:
  "wf_array CallExpression xs \<Longrightarrow> Some c \<in> set xs \<Longrightarrow> ntype c \<notin> removable"
proof (induction xs)
  case Nil
  then show ?case by simp
next
  case (Cons x xs)
  then show ?case by (cases x; cases c) auto
qed

lemma wf_fields_Array:
  "wf_fields t fs \<Longrightarrow> map_of fs k = Some (Array xs) \<Longrightarrow> wf_array t xs"
proof (induction fs)
  case Nil
  then show ?case by simp
next
  case (Cons f fs)
  obtain k' x where f: "f = (k', x)" by (cases f)
  with Cons show ?case by (cases x) (auto split: if_splits)
qed

lemma wf_fields_Single:
  "wf_fields t fs \<Longrightarrow> map_of fs k = Some (Single c) \<Longrightarrow> wf t c"
proof (induction fs)
  case Nil
  then show ?case by simp
next
  case (Cons f fs)
  obtain k' x where f: "f = (k', x)" by (cases f)
  with Cons show ?case by (cases x) (auto split: if_splits)
qed

lemma wf_get:
  "wf_fields (ntype n) (nfields n) \<Longrightarrow> get n k = Some c \<Longrightarrow> wf_fields (ntype c) (nfields c)"
proof -
  assume w: "wf_fields (ntype n) (nfields n)" and g: "get n k = Some c"
  from g have "map_of (nfields n) k = Some (Single c)"
    by (auto simp: get_def split: option.splits field.splits)
  from wf_fields_Single [OF w this] show ?thesis by (cases c) simp
qed

lemma wfO_get: "wf_fields (ntype n) (nfields n) \<Longrightarrow> wfO (get n k)"
  by (cases "get n k") (auto simp: wfO_def dest: wf_get)

lemma wfO_prop_of: "wfO x \<Longrightarrow> wfO (prop_of x k)"
proof (cases x)
  case None
  then show ?thesis by (simp add: wfO_def)
next
  case (Some c)
  assume "wfO x"
  with Some have "wf_fields (ntype c) (nfields c)" by (simp add: wfO_def)
  from wfO_get [OF this] Some show ?thesis by simp
qed

lemma simO_first_argument:
  assumes "simO x x'" "isCallExpression x'" "wfO x"
  shows "simO (first_argument x) (first_argument x')"
proof (cases "first_argument x'")
  case None
  then show ?thesis by simp
next
  case (Some a')
  from assms(2) obtain c' where x': "x' = Some c'" and t: "ntype c' = CallExpression"
    by (cases x') auto
  from assms(1) x' obtain c where x: "x = Some c" and sm: "sim c c'"
    by (auto simp: simO_Some)
  from t have nb: "ntype c' \<noteq> BlockStatement" by simp
  from sim_ntype [OF sm nb] t have tc: "ntype c = CallExpression" by simp
  from Some x' obtain ys where ys: "map_of (nfields c') ''arguments'' = Some (Array ys)"
      and a': "(case ys of [] \<Rightarrow> None | a # _ \<Rightarrow> a) = Some a'"
    by (auto simp: elems_def split: option.splits field.splits list.splits)
  from simF_Array [OF sim_fields [OF sm nb] ys] obtain xs
    where xs: "map_of (nfields c) ''arguments'' = Some (Array xs)" and sa: "simA xs ys"
    by blast
  from assms(3) x tc have "wf_fields CallExpression (nfields c)" by (simp add: wfO_def)
  from wf_fields_Array [OF this xs] have "\<forall>e. Some e \<in> set xs \<longrightarrow> ntype e \<notin> removable"
    by (auto dest: wf_array_call)
  from simA_first [OF sa this a'] xs x Some show ?thesis
    by (auto simp: simO_Some elems_def)
qed

lemma simO_isRequireAssert:
  assumes "simO i i'" "simO x x'" "wfO x" "isRequireAssert v i' x'"
  shows "isRequireAssert v i x"
proof -
  from assms(4) have c': "isCallExpression x'"
    and ci: "isIdentifier (prop_of x' ''callee'')"
    and cn: "name_of (prop_of x' ''callee'') = Some ''require''"
    and al: "isLiteral (first_argument x')"
    and am: "isAssertionModuleName v (first_argument x')"
    and ii: "isIdentifier i' \<or> isObjectPattern i'"
    by (auto simp: isRequireAssert_def Let_def split: if_splits)
  have sc: "simO (prop_of x ''callee'') (prop_of x' ''callee'')"
    by (rule simO_prop_of [OF assms(2) c']) simp
  have sa: "simO (first_argument x) (first_argument x')"
    by (rule simO_first_argument [OF assms(2) c' assms(3)])
  have "isCallExpression x" by (rule simO_has_type [OF assms(2) c']) simp
  moreover have "isIdentifier (prop_of x ''callee'')" by (rule simO_has_type [OF sc ci]) simp
  moreover have "name_of (prop_of x ''callee'') = Some ''require''"
    by (rule simO_name_of [OF sc ci _ cn]) simp
  moreover have "isLiteral (first_argument x)" by (rule simO_has_type [OF sa al]) simp
  moreover have "isAssertionModuleName v (first_argument x)"
    by (rule simO_isAssertionModuleName [OF sa am])
  moreover have "isIdentifier i \<or> isObjectPattern i"
    using ii simO_has_type [OF assms(1), of Identifier] simO_has_type [OF assms(1), of ObjectPattern]
    by auto
  ultimately show ?thesis by (simp add: isRequireAssert_def Let_def)
qed

lemma simO_isRequireAssertStrict:
  assumes "simO i i'" "simO x x'" "wfO x" "isRequireAssertStrict v i' x'"
  shows "isRequireAssertStrict v i x"
proof -
  from assms(4) have m': "isMemberExpression x'"
    and r': "isRequireAssert v i' (prop_of x' ''object'')"
    and pi: "isIdentifier (prop_of x' ''property'')"
    and pn: "name_of (prop_of x' ''property'') = Some ''strict''"
    by (auto simp: isRequireAssertStrict_def Let_def split: if_splits)
  have so: "simO (prop_of x ''object'') (prop_of x' ''object'')"
    by (rule simO_prop_of [OF assms(2) m']) simp
  have sp: "simO (prop_of x ''property'') (prop_of x' ''property'')"
    by (rule simO_prop_of [OF assms(2) m']) simp
  have "isMemberExpression x" by (rule simO_has_type [OF assms(2) m']) simp
  moreover have "isRequireAssert v i (prop_of x ''object'')"
    by (rule simO_isRequireAssert [OF assms(1) so wfO_prop_of [OF assms(3)] r'])
  moreover have "isIdentifier (prop_of x ''property'')" by (rule simO_has_type [OF sp pi]) simp
  moreover have "name_of (prop_of x ''property'') = Some ''strict''"
    by (rule simO_name_of [OF sp pi _ pn]) simp
  ultimately show ?thesis by (simp add: isRequireAssertStrict_def Let_def)
qed

lemma simO_isRemovalTarget:
  "simO i i' \<Longrightarrow> simO x x' \<Longrightarrow> wfO x \<Longrightarrow> isRemovalTarget v i' x' \<Longrightarrow> isRemovalTarget v i x"
  unfolding isRemovalTarget_def
  by (auto dest: simO_isRequireAssert simO_isRequireAssertStrict)

lemma simO_callee_matches:
  "simO x x' \<Longrightarrow>
     isAssertionFunction v x' \<or> isAssertionMethod v x' \<or> isConsoleAssert x' \<Longrightarrow>
     isAssertionFunction v x \<or> isAssertionMethod v x \<or> isConsoleAssert x"
  unfolding isAssertionFunction_def
  by (auto dest: simO_isAssertionVariableName simO_isAssertionMethod simO_isConsoleAssert)

lemma recognized_iff:
  "recognized v n pt \<longleftrightarrow>
     (case ntype n of
        ImportDeclaration \<Rightarrow> isAssertionModuleName v (get n ''source'')
      | VariableDeclarator \<Rightarrow> isRemovalTarget v (get n ''id'') (get n ''init'')
      | AssignmentExpression \<Rightarrow>
          prim n ''operator'' = Some (JString ''='') \<and> pt = ExpressionStatement \<and>
          isRemovalTarget v (get n ''left'') (get n ''right'')
      | CallExpression \<Rightarrow>
          pt = ExpressionStatement \<and>
          (isAssertionFunction v (get n ''callee'') \<or> isAssertionMethod v (get n ''callee'') \<or>
           isConsoleAssert (get n ''callee''))
      | AwaitExpression \<Rightarrow>
          pt = ExpressionStatement \<and> isCallExpression (get n ''argument'') \<and>
          (isAssertionFunction v (prop_of (get n ''argument'') ''callee'') \<or>
           isAssertionMethod v (prop_of (get n ''argument'') ''callee'') \<or>
           isConsoleAssert (prop_of (get n ''argument'') ''callee''))
      | _ \<Rightarrow> False)"
  by (cases "ntype n") (auto simp: recognized_def enter_def Let_def)

lemma sim_recognized:
  assumes s: "sim n n'" and r: "recognized v n' pt" and w: "wf_fields (ntype n) (nfields n)"
  shows "recognized v n pt"
proof -
  from r have nb: "ntype n' \<noteq> BlockStatement"
    by (auto simp: recognized_iff)
  from sim_ntype [OF s nb] have t: "ntype n = ntype n'" .
  note g = simO_get [OF s nb]
  note wg = wfO_get [OF w]
  show ?thesis
  proof (cases "ntype n'")
    case ImportDeclaration
    with r t simO_isAssertionModuleName [OF g] show ?thesis
      by (auto simp: recognized_iff)
  next
    case VariableDeclarator
    with r t simO_isRemovalTarget [OF g g wg] show ?thesis
      by (auto simp: recognized_iff)
  next
    case AssignmentExpression
    with r t simO_isRemovalTarget [OF g g wg] sim_prim [OF s nb] show ?thesis
      by (auto simp: recognized_iff)
  next
    case CallExpression
    with r t simO_callee_matches [OF g] show ?thesis
      by (auto simp: recognized_iff)
  next
    case AwaitExpression
    with r have c: "isCallExpression (get n' ''argument'')"
      by (simp add: recognized_iff)
    have "simO (prop_of (get n ''argument'') ''callee'') (prop_of (get n' ''argument'') ''callee'')"
      by (rule simO_prop_of [OF g c]) simp
    from simO_callee_matches [OF this] simO_has_type [OF g c] AwaitExpression r t show ?thesis
      by (auto simp: recognized_iff)
  qed (use r in \<open>auto simp: recognized_iff\<close>)
qed

subsection \<open>Idempotence\<close>

lemma unrecognized_emptyBlock [simp]: "\<not> recognized v mk_emptyBlock pt"
  by (simp add: recognized_iff)

lemma enter_skip_marks:
  assumes "enter v p n q = (True, v1)" "ntype n = VariableDeclarator \<longrightarrow> ntype q \<in> removable"
  shows "p \<in> nodeToRemove v1 \<and> ntype n \<in> removable \<or>
         tl p \<in> nodeToRemove v1 \<and> ntype q \<in> removable"
  using assms
  by (cases "ntype n") (auto simp: enter_def Let_def removable_def split: if_splits)

lemma walk_root:
  assumes "walk v [] parent n = Inr (r, v')"
  shows "\<exists>n'. r = Some n' \<and> ntype n' = ntype n \<and> \<not> ([] \<in> nodeToRemove v' \<and> ntype n \<in> removable)"
proof -
  obtain t fs where n: "n = Node t fs" by (cases n)
  from assms [unfolded n] obtain skip v1 fs' out where
    l: "leave v' [] (Node t fs') (case parent of None \<Rightarrow> Node t fs' | Some q \<Rightarrow> q) = Inr out"
    and r: "r = (case out of NoChange \<Rightarrow> Some (Node t fs') | ReplaceWith x \<Rightarrow> Some x | RemoveSelf \<Rightarrow> None)"
    by (rule walk_elim) blast
  from leave_cases [of v' "[]" "Node t fs'" "case parent of None \<Rightarrow> Node t fs' | Some q \<Rightarrow> q"] l r n
  show ?thesis by auto
qed

lemma walk_output_quiet:
  "walk v p parent n = Inr (r, v') \<Longrightarrow> wf_fields (ntype n) (nfields n) \<Longrightarrow>
     (ntype n = VariableDeclarator \<longrightarrow> (case parent of None \<Rightarrow> ntype n | Some q \<Rightarrow> ntype q) \<in> removable) \<Longrightarrow>
     targetVariables v0 \<subseteq> targetVariables v \<Longrightarrow> targetModules v0 = targetModules v \<Longrightarrow>
     (case r of None \<Rightarrow> True
      | Some n' \<Rightarrow> quiet v0 (case parent of None \<Rightarrow> ntype n | Some q \<Rightarrow> ntype q) n') \<or>
     (tl p \<in> nodeToRemove v' \<and> (case parent of None \<Rightarrow> ntype n | Some q \<Rightarrow> ntype q) \<in> removable)"
  "walk_fields v p t seen fs = Inr (out, v') \<Longrightarrow> wf_fields t fs \<Longrightarrow>
     targetVariables v0 \<subseteq> targetVariables v \<Longrightarrow> targetModules v0 = targetModules v \<Longrightarrow>
     (\<exists>fs'. out = seen @ fs' \<and> quiet_fields v0 t fs') \<or> (p \<in> nodeToRemove v' \<and> t \<in> removable)"
  "walk_array v p ctx k i seen' xs = Inr (out', v') \<Longrightarrow> wf_array (ntype (ctx [])) xs \<Longrightarrow>
     \<forall>ys. ntype (ctx ys) = ntype (ctx []) \<Longrightarrow>
     targetVariables v0 \<subseteq> targetVariables v \<Longrightarrow> targetModules v0 = targetModules v \<Longrightarrow>
     (\<exists>ys. out' = seen' @ ys \<and> quiet_array v0 (ntype (ctx [])) ys) \<or>
     (p \<in> nodeToRemove v' \<and> ntype (ctx []) \<in> removable)"
proof (induction v p parent n and v p t seen fs and v p ctx k i seen' xs
       arbitrary: r v' and out v' and out' v' rule: walk_walk_fields_walk_array.induct)
  case (1 v p parent t fs)
  let ?q = "case parent of None \<Rightarrow> Node t fs | Some q \<Rightarrow> q"
  let ?pt = "case parent of None \<Rightarrow> ntype (Node t fs) | Some q \<Rightarrow> ntype q"
  have pt: "ntype ?q = ?pt" by (cases parent) simp_all
  from "1.prems"(1) obtain skip v1 fs' out where
    e: "enter v p (Node t fs) ?q = (skip, v1)"
    and sk: "skip \<Longrightarrow> fs' = fs \<and> v' = v1"
    and ns: "\<not> skip \<Longrightarrow> walk_fields v1 p t [] fs = Inr (fs', v')"
    and l: "leave v' p (Node t fs') (case parent of None \<Rightarrow> Node t fs' | Some q \<Rightarrow> q) = Inr out"
    and r: "r = (case out of NoChange \<Rightarrow> Some (Node t fs') | ReplaceWith x \<Rightarrow> Some x | RemoveSelf \<Rightarrow> None)"
    by (rule walk_elim) blast
  show ?case
  proof (cases "out = NoChange")
    case False
    with leave_cases [of v' p "Node t fs'" "case parent of None \<Rightarrow> Node t fs' | Some q \<Rightarrow> q"] l r
    show ?thesis by auto
  next
    case True
    with leave_cases [of v' p "Node t fs'" "case parent of None \<Rightarrow> Node t fs' | Some q \<Rightarrow> q"] l
    have unmarked: "\<not> (p \<in> nodeToRemove v' \<and> t \<in> removable)" by auto
    from True r have r': "r = Some (Node t fs')" by simp
    show ?thesis
    proof (cases skip)
      case True
      with e sk have "enter v p (Node t fs) ?q = (True, v')" by simp
      from enter_skip_marks [OF this] "1.prems"(3) unmarked show ?thesis
        by (simp add: pt)
    next
      case False
      with e have nr: "\<not> recognized v (Node t fs) ?pt"
        using enter_recognized [of v p "Node t fs" ?q] by (simp add: pt)
      from enter_unrecognized [of v "Node t fs" ?q p] nr e have v1: "v1 = v"
        by (simp add: pt)
      from "1.IH" [OF e [symmetric] False ns [OF False]] "1.prems"(2,4,5) unmarked
      have qf: "quiet_fields v0 t fs'" by (auto simp: v1)
      from walk_sim(2) [OF ns [OF False]] have "simF fs fs'" by simp
      then have s: "sim (Node t fs) (Node t fs')" by (rule sim_node)
      have "\<not> recognized v0 (Node t fs') ?pt"
      proof
        assume "recognized v0 (Node t fs') ?pt"
        from sim_recognized [OF s this] "1.prems"(2) have "recognized v0 (Node t fs) ?pt" by simp
        from recognized_mono [OF this "1.prems"(4,5)] nr show False by simp
      qed
      with qf r' show ?thesis by simp
    qed
  qed
next
  case (2 v p t seen)
  then show ?case by simp
next
  case (3 v p t seen k x rest)
  from "3.IH" [OF "3.prems"(1) [simplified]] "3.prems"(2-) show ?case by auto
next
  case (4 v p t seen k c rest)
  from "4.prems"(1) obtain r v1 where
    w: "walk v (Key k # p) (Some (Node t (seen @ (k, Single c) # rest))) c = Inr (r, v1)"
    and f: "walk_fields v1 p t (seen @ [(k, case r of None \<Rightarrow> Prim JNull | Some c' \<Rightarrow> Single c')]) rest = Inr (out, v')"
    by (auto split: sum.splits)
  from "4.prems"(2) have wc: "wf_fields (ntype c) (nfields c)"
    and dc: "ntype c = VariableDeclarator \<longrightarrow> t \<in> removable"
    and wr: "wf_fields t rest"
    by (cases c; simp add: removable_def)+
  from walk_extends(1) [OF w] "4.prems"(3,4)
  have v1: "targetVariables v0 \<subseteq> targetVariables v1" "targetModules v0 = targetModules v1"
    by (auto simp: extends_def)
  from walk_extends(2) [OF f] have m: "nodeToRemove v1 \<subseteq> nodeToRemove v'"
    by (simp add: extends_def)
  from "4.IH"(1) [OF w wc _ "4.prems"(3,4)] dc
  have c1: "(case r of None \<Rightarrow> True | Some c' \<Rightarrow> quiet v0 t c') \<or> (p \<in> nodeToRemove v1 \<and> t \<in> removable)"
    by (cases r) simp_all
  from "4.IH"(2) [OF w refl f wr v1]
  have c2: "(\<exists>fs'. out = (seen @ [(k, case r of None \<Rightarrow> Prim JNull | Some c' \<Rightarrow> Single c')]) @ fs' \<and>
              quiet_fields v0 t fs') \<or> (p \<in> nodeToRemove v' \<and> t \<in> removable)" .
  from c1 c2 m show ?case by (cases r) auto
next
  case (5 v p t seen k xs rest)
  from "5.prems"(1) obtain ys v1 where
    w: "walk_array v p (\<lambda>ys. Node t (seen @ (k, Array ys) # rest)) k 0 [] xs = Inr (ys, v1)"
    and f: "walk_fields v1 p t (seen @ [(k, Array ys)]) rest = Inr (out, v')"
    by (auto split: sum.splits)
  from "5.prems"(2) have wa: "wf_array t xs" and wr: "wf_fields t rest" by simp_all
  from walk_extends(3) [OF w] "5.prems"(3,4)
  have v1: "targetVariables v0 \<subseteq> targetVariables v1" "targetModules v0 = targetModules v1"
    by (auto simp: extends_def)
  from walk_extends(2) [OF f] have m: "nodeToRemove v1 \<subseteq> nodeToRemove v'"
    by (simp add: extends_def)
  from "5.IH"(1) [OF w _ _ "5.prems"(3,4)] wa
  have c1: "(\<exists>zs. ys = [] @ zs \<and> quiet_array v0 t zs) \<or> (p \<in> nodeToRemove v1 \<and> t \<in> removable)"
    by simp
  from "5.IH"(2) [OF w refl f wr v1]
  have c2: "(\<exists>fs'. out = (seen @ [(k, Array ys)]) @ fs' \<and> quiet_fields v0 t fs') \<or>
            (p \<in> nodeToRemove v' \<and> t \<in> removable)" .
  from c1 c2 m show ?case by auto
next
  case (6 v p ctx k i seen)
  then show ?case by simp
next
  case (7 v p ctx k i seen xs)
  from "7.IH" [OF "7.prems"(1) [simplified]] "7.prems"(2-) show ?case by auto
next
  case (8 v p ctx k i seen c xs)
  let ?t = "ntype (ctx [])"
  from "8.prems"(1) obtain r v1 where
    w: "walk v (Item k i # p) (Some (ctx (seen @ Some c # xs))) c = Inr (r, v1)"
    and f: "walk_array v1 p ctx k (Suc i) (case r of None \<Rightarrow> seen | Some c' \<Rightarrow> seen @ [Some c']) xs = Inr (out', v')"
    by (auto split: sum.splits)
  have ty: "ntype (ctx (seen @ Some c # xs)) = ?t" using "8.prems"(3) by blast
  from "8.prems"(2) have wc: "wf_fields (ntype c) (nfields c)"
    and dc: "ntype c = VariableDeclarator \<longrightarrow> ?t \<in> removable"
    and wr: "wf_array ?t xs"
    by (cases c; simp add: removable_def)+
  from walk_extends(1) [OF w] "8.prems"(4,5)
  have v1: "targetVariables v0 \<subseteq> targetVariables v1" "targetModules v0 = targetModules v1"
    by (auto simp: extends_def)
  from walk_extends(3) [OF f] have m: "nodeToRemove v1 \<subseteq> nodeToRemove v'"
    by (simp add: extends_def)
  from "8.IH"(1) [OF w wc _ "8.prems"(4,5)] dc
  have c1: "(case r of None \<Rightarrow> True | Some c' \<Rightarrow> quiet v0 ?t c') \<or> (p \<in> nodeToRemove v1 \<and> ?t \<in> removable)"
    by (cases r) (simp_all add: ty)
  from "8.IH"(2) [OF w refl f wr "8.prems"(3) v1]
  have c2: "(\<exists>ys. out' = (case r of None \<Rightarrow> seen | Some c' \<Rightarrow> seen @ [Some c']) @ ys \<and>
              quiet_array v0 ?t ys) \<or> (p \<in> nodeToRemove v' \<and> ?t \<in> removable)" .
  from c1 c2 m show ?case by (cases r) auto
qed

text \<open>
  C4: on a well-formed tree, applying the transform to its own output gives what the
  first application gave: the same tree when the first application returns one, and the
  same error when it throws (a marked root).
\<close>

theorem idempotent:
  "wellFormed ast \<Longrightarrow> unassertAst_twice ast opts = unassertAst ast opts"
proof (cases "walk (createVisitor opts) [] None ast")
  case (Inl e)
  then show ?thesis by (simp add: unassertAst_twice_def unassertAst_def)
next
  case (Inr rv)
  assume w: "wellFormed ast"
  obtain r v' where rv: "rv = (r, v')" by (cases rv)
  let ?v0 = "createVisitor opts"
  from walk_root [OF Inr [unfolded rv]] obtain once where
    r: "r = Some once" and t: "ntype once = ntype ast"
    and root: "\<not> ([] \<in> nodeToRemove v' \<and> ntype ast \<in> removable)"
    by blast
  from walk_output_quiet(1) [OF Inr [unfolded rv], of ?v0] w root r t
  have "quiet ?v0 (ntype once) once"
    by (auto simp: wellFormed_def removable_def)
  then have "walk ?v0 [] None once = Inr (Some once, ?v0)"
    by (intro walk_quiet(1)) (simp_all add: createVisitor_def Let_def)
  with Inr rv r show ?thesis
    by (simp add: unassertAst_twice_def unassertAst_def)
qed

theorem idempotent_witness:
  "wellFormed import_then_call \<and>
   unassertAst import_then_call \<lparr>modules = None, variables = None\<rparr>
     = Inr (Some (mk_program [mk_exprStmt (mk_callExpr (mk_identifier ''f'') [])])) \<and>
   unassertAst_twice import_then_call \<lparr>modules = None, variables = None\<rparr>
     = Inr (Some (mk_program [mk_exprStmt (mk_callExpr (mk_identifier ''f'') [])]))"
proof -
  have w: "wellFormed import_then_call"
    by (simp add: wellFormed_def removable_def)
  have o: "unassertAst import_then_call \<lparr>modules = None, variables = None\<rparr>
      = Inr (Some (mk_program [mk_exprStmt (mk_callExpr (mk_identifier ''f'') [])]))"
    by (simp add: visitor_defs)
  from idempotent [OF w, of "\<lparr>modules = None, variables = None\<rparr>"] o w show ?thesis by simp
qed

subsection \<open>Declarators\<close>

text \<open>
  What a walk adds to the marks: positions at or below the one walked, and the position
  of the parent, for a declarator and for a child of an expression statement only.
\<close>

lemma enter_marks:
  "nodeToRemove (snd (enter v p n par)) \<subseteq>
     nodeToRemove v \<union> {p} \<union>
     {m. m = tl p \<and> (ntype par = ExpressionStatement \<or> ntype n = VariableDeclarator)}"
  by (cases "ntype n") (auto simp: enter_def Let_def split: if_splits)

lemma suffix_Cons_strict: "suffix (s # p) m \<Longrightarrow> strict_suffix p m"
  by (auto simp: strict_suffix_def suffix_def)

lemma walk_frame:
  "walk v p parent n = Inr (r, v') \<Longrightarrow> wf_fields (ntype n) (nfields n) \<Longrightarrow>
     nodeToRemove v' \<subseteq> nodeToRemove v \<union> {m. suffix p m} \<union>
       {m. m = tl p \<and> ((case parent of None \<Rightarrow> ntype n | Some q \<Rightarrow> ntype q) = ExpressionStatement \<or>
                        ntype n = VariableDeclarator)}"
  "walk_fields v p t seen fs = Inr (out, v') \<Longrightarrow> wf_fields t fs \<Longrightarrow>
     nodeToRemove v' \<subseteq> nodeToRemove v \<union> {m. strict_suffix p m} \<union>
       {m. m = p \<and> (t = ExpressionStatement \<or> t = VariableDeclaration)}"
  "walk_array v p ctx k i seen' xs = Inr (out', v') \<Longrightarrow> wf_array (ntype (ctx [])) xs \<Longrightarrow>
     \<forall>ys. ntype (ctx ys) = ntype (ctx []) \<Longrightarrow>
     nodeToRemove v' \<subseteq> nodeToRemove v \<union> {m. strict_suffix p m} \<union>
       {m. m = p \<and> (ntype (ctx []) = ExpressionStatement \<or> ntype (ctx []) = VariableDeclaration)}"
proof (induction v p parent n and v p t seen fs and v p ctx k i seen' xs
       arbitrary: r v' and out v' and out' v' rule: walk_walk_fields_walk_array.induct)
  case (1 v p parent t fs)
  let ?q = "case parent of None \<Rightarrow> Node t fs | Some q \<Rightarrow> q"
  have pt: "ntype ?q = (case parent of None \<Rightarrow> ntype (Node t fs) | Some q \<Rightarrow> ntype q)"
    by (cases parent) simp_all
  from "1.prems"(1) obtain skip v1 fs' out where
    e: "enter v p (Node t fs) ?q = (skip, v1)"
    and sk: "skip \<Longrightarrow> fs' = fs \<and> v' = v1"
    and ns: "\<not> skip \<Longrightarrow> walk_fields v1 p t [] fs = Inr (fs', v')"
    by (rule walk_elim) blast
  from enter_marks [of v p "Node t fs" ?q] e
  have m1: "nodeToRemove v1 \<subseteq> nodeToRemove v \<union> {p} \<union>
      {m. m = tl p \<and> (ntype ?q = ExpressionStatement \<or> ntype (Node t fs) = VariableDeclarator)}"
    by simp
  show ?case
  proof (cases skip)
    case True
    with sk m1 show ?thesis by (auto simp: pt)
  next
    case False
    from "1.IH" [OF e [symmetric] False ns [OF False]] "1.prems"(2)
    have "nodeToRemove v' \<subseteq> nodeToRemove v1 \<union> {m. strict_suffix p m} \<union>
       {m. m = p \<and> (t = ExpressionStatement \<or> t = VariableDeclaration)}"
      by simp
    with m1 show ?thesis by (auto simp: pt strict_suffix_def)
  qed
next
  case (2 v p t seen)
  then show ?case by auto
next
  case (3 v p t seen k x rest)
  from "3.IH" [OF "3.prems"(1) [simplified]] "3.prems"(2) show ?case by simp
next
  case (4 v p t seen k c rest)
  from "4.prems"(1) obtain r v1 where
    w: "walk v (Key k # p) (Some (Node t (seen @ (k, Single c) # rest))) c = Inr (r, v1)"
    and f: "walk_fields v1 p t (seen @ [(k, case r of None \<Rightarrow> Prim JNull | Some c' \<Rightarrow> Single c')]) rest = Inr (out, v')"
    by (auto split: sum.splits)
  from "4.prems"(2) have wc: "wf_fields (ntype c) (nfields c)"
    and dc: "ntype c = VariableDeclarator \<longrightarrow> t = VariableDeclaration"
    and wr: "wf_fields t rest"
    by (cases c; simp)+
  from "4.IH"(1) [OF w wc] dc
  have c1: "nodeToRemove v1 \<subseteq> nodeToRemove v \<union> {m. strict_suffix p m} \<union>
       {m. m = p \<and> (t = ExpressionStatement \<or> t = VariableDeclaration)}"
    by (auto dest: suffix_Cons_strict)
  from "4.IH"(2) [OF w refl f wr] c1 show ?case by blast
next
  case (5 v p t seen k xs rest)
  from "5.prems"(1) obtain ys v1 where
    w: "walk_array v p (\<lambda>ys. Node t (seen @ (k, Array ys) # rest)) k 0 [] xs = Inr (ys, v1)"
    and f: "walk_fields v1 p t (seen @ [(k, Array ys)]) rest = Inr (out, v')"
    by (auto split: sum.splits)
  from "5.prems"(2) have wa: "wf_array t xs" and wr: "wf_fields t rest" by simp_all
  from "5.IH"(1) [OF w] wa
  have c1: "nodeToRemove v1 \<subseteq> nodeToRemove v \<union> {m. strict_suffix p m} \<union>
       {m. m = p \<and> (t = ExpressionStatement \<or> t = VariableDeclaration)}"
    by simp
  from "5.IH"(2) [OF w refl f wr] c1 show ?case by blast
next
  case (6 v p ctx k i seen)
  then show ?case by auto
next
  case (7 v p ctx k i seen xs)
  from "7.IH" [OF "7.prems"(1) [simplified]] "7.prems"(2-) show ?case by simp
next
  case (8 v p ctx k i seen c xs)
  let ?t = "ntype (ctx [])"
  from "8.prems"(1) obtain r v1 where
    w: "walk v (Item k i # p) (Some (ctx (seen @ Some c # xs))) c = Inr (r, v1)"
    and f: "walk_array v1 p ctx k (Suc i) (case r of None \<Rightarrow> seen | Some c' \<Rightarrow> seen @ [Some c']) xs = Inr (out', v')"
    by (auto split: sum.splits)
  have ty: "ntype (ctx (seen @ Some c # xs)) = ?t" using "8.prems"(3) by blast
  from "8.prems"(2) have wc: "wf_fields (ntype c) (nfields c)"
    and dc: "ntype c = VariableDeclarator \<longrightarrow> ?t = VariableDeclaration"
    and wr: "wf_array ?t xs"
    by (cases c; simp)+
  from "8.IH"(1) [OF w wc] dc
  have c1: "nodeToRemove v1 \<subseteq> nodeToRemove v \<union> {m. strict_suffix p m} \<union>
       {m. m = p \<and> (?t = ExpressionStatement \<or> ?t = VariableDeclaration)}"
    by (auto simp: ty dest: suffix_Cons_strict)
  from "8.IH"(2) [OF w refl f wr "8.prems"(3)] c1 show ?case by blast
qed

text \<open>
  Only the root makes \<^verbatim>\<open>leave\<close> throw, so a walk below the root returns.
\<close>

lemma walk_returns:
  "p \<noteq> [] \<Longrightarrow> \<exists>r v'. walk v p parent n = Inr (r, v')"
  "\<exists>out v'. walk_fields v p t seen fs = Inr (out, v')"
  "\<exists>out v'. walk_array v p ctx k i seen' xs = Inr (out, v')"
proof (induction v p parent n and v p t seen fs and v p ctx k i seen' xs
       rule: walk_walk_fields_walk_array.induct)
  case (1 v p parent t fs)
  obtain skip v1 where e: "enter v p (Node t fs) (case parent of None \<Rightarrow> Node t fs | Some q \<Rightarrow> q) = (skip, v1)"
    by (cases "enter v p (Node t fs) (case parent of None \<Rightarrow> Node t fs | Some q \<Rightarrow> q)")
  obtain fs' v2 where f: "(if skip then Inr (fs, v1) else walk_fields v1 p t [] fs) = Inr (fs', v2)"
    using "1.IH" [OF e [symmetric]] by (cases skip) auto
  from leave_cases [of v2 p "Node t fs'" "case parent of None \<Rightarrow> Node t fs' | Some q \<Rightarrow> q"] "1.prems"
  obtain out where "leave v2 p (Node t fs') (case parent of None \<Rightarrow> Node t fs' | Some q \<Rightarrow> q) = Inr out"
    by auto
  with e f show ?case by (cases out) auto
next
  case (2 v p t seen)
  then show ?case by simp
next
  case (3 v p t seen k x rest)
  then show ?case by simp
next
  case (4 v p t seen k c rest)
  from "4.IH"(1) obtain r v1 where
    w: "walk v (Key k # p) (Some (Node t (seen @ (k, Single c) # rest))) c = Inr (r, v1)"
    by auto
  from "4.IH"(2) [OF w refl] w show ?case by auto
next
  case (5 v p t seen k xs rest)
  from "5.IH"(1) obtain ys v1 where
    w: "walk_array v p (\<lambda>ys. Node t (seen @ (k, Array ys) # rest)) k 0 [] xs = Inr (ys, v1)"
    by auto
  from "5.IH"(2) [OF w refl] w show ?case by auto
next
  case (6 v p ctx k i seen)
  then show ?case by simp
next
  case (7 v p ctx k i seen xs)
  then show ?case by simp
next
  case (8 v p ctx k i seen c xs)
  from "8.IH"(1) obtain r v1 where
    w: "walk v (Item k i # p) (Some (ctx (seen @ Some c # xs))) c = Inr (r, v1)"
    by auto
  from "8.IH"(2) [OF w refl] w show ?case by auto
qed


text \<open>
  The walk of one declarator: a removal target is skipped and, unless it is alone in the
  declaration, removed; any other declarator is kept, and its walk leaves marks below its
  position only.
\<close>

lemma walk_target_declarator:
  assumes d: "ntype d = VariableDeclarator"
    and tgt: "isRemovalTarget v (get d ''id'') (get d ''init'')"
    and fresh: "s # p \<notin> nodeToRemove v"
  shows "walk v (s # p) (Some par) d =
     Inr (if length (elems par ''declarations'') = 1 then Some d else None,
          registerAssertionVariables
            (if length (elems par ''declarations'') = 1 then add p v else add (s # p) v)
            (get d ''id''))"
proof -
  obtain fs where dn: "d = Node VariableDeclarator fs" using d by (cases d) auto
  let ?v1 = "registerAssertionVariables
      (if length (elems par ''declarations'') = 1 then add p v else add (s # p) v) (get d ''id'')"
  have e: "enter v (s # p) d par = (True, ?v1)"
    using enter_declarator [OF d tgt, of "s # p" par] by simp
  have l: "leave ?v1 (s # p) d par =
      Inr (if length (elems par ''declarations'') = 1 then NoChange else RemoveSelf)"
    using fresh
    by (auto simp: leave_def d isNonBlockChildOfIfStatementOrLoop_def not_suffix_Cons_self
          dest: arg_cong [where f = length])
  from e l show ?thesis by (simp add: dn)
qed

lemma walk_nontarget_declarator:
  assumes x: "ntype x = VariableDeclarator"
    and wfx: "wf VariableDeclaration x"
    and non: "\<not> isRemovalTarget v (get x ''id'') (get x ''init'')"
    and fresh: "q \<notin> nodeToRemove v"
  shows "\<exists>x' v'. walk v q (Some par) x = Inr (Some x', v') \<and> ntype x' = VariableDeclarator \<and>
      walk_fields v q VariableDeclarator [] (nfields x) = Inr (nfields x', v') \<and>
      nodeToRemove v' \<subseteq> nodeToRemove v \<union> {m. strict_suffix q m}"
proof -
  obtain fs where xn: "x = Node VariableDeclarator fs" using x by (cases x) auto
  have e: "enter v q x par = (False, v)"
    using non by (simp add: enter_def x)
  obtain fs' v' where f: "walk_fields v q VariableDeclarator [] fs = Inr (fs', v')"
    using walk_returns(2) by blast
  have wfs: "wf_fields VariableDeclarator fs" using wfx by (simp add: xn)
  from walk_frame(2) [OF f wfs]
  have m: "nodeToRemove v' \<subseteq> nodeToRemove v \<union> {m. strict_suffix q m}" by auto
  with fresh have "q \<notin> nodeToRemove v'" by auto
  then have l: "leave v' q (Node VariableDeclarator fs') par = Inr NoChange"
    by (rule leave_unmarked)
  from e f l have "walk v q (Some par) x = Inr (Some (Node VariableDeclarator fs'), v')"
    by (simp add: xn)
  with m f show ?thesis by (simp add: xn)
qed

text \<open>
  The walk of the declarators of a declaration, from index \<open>i\<close> on: \<open>sk\<close> are the
  declarators kept so far.
\<close>

lemma suffix_Item_distinct:
  "strict_suffix (Item k i # p) m \<Longrightarrow> suffix (Item k j # p) m \<Longrightarrow> i = j"
proof -
  assume a: "strict_suffix (Item k i # p) m" and b: "suffix (Item k j # p) m"
  from a have "suffix (Item k i # p) m" by (simp add: strict_suffix_def)
  with b have "suffix (Item k i # p) (Item k j # p) \<or> suffix (Item k j # p) (Item k i # p)"
    by (auto simp: suffix_def append_eq_append_conv2)
  then show ?thesis by (auto simp: suffix_Cons_same_length)
qed

lemma walk_declarators:
  assumes ctx: "ctx = (\<lambda>ys. Node VariableDeclaration ([] @ (''declarations'', Array ys) # rest))"
  shows "drop i all = ds \<Longrightarrow> extends vb v \<Longrightarrow>
     \<forall>x\<in>set ds. ntype x = VariableDeclarator \<and> wf VariableDeclaration x \<Longrightarrow>
     \<forall>m\<in>nodeToRemove v. \<forall>j\<ge>i. \<not> suffix (Item ''declarations'' j # p) m \<Longrightarrow>
     p \<notin> nodeToRemove v \<or> sk = [] \<and> ds \<noteq> [] \<and> (\<forall>x\<in>set ds. isRemovalTarget vb (get x ''id'') (get x ''init'')) \<Longrightarrow>
     \<exists>out v'. walk_array v p ctx ''declarations'' i (map Some sk) (map Some ds) = Inr (map Some out, v') \<and>
        extends v v' \<and>
        (if sk = [] \<and> ds \<noteq> [] \<and> (\<forall>x\<in>set ds. isRemovalTarget vb (get x ''id'') (get x ''init''))
         then p \<in> nodeToRemove v'
         else p \<notin> nodeToRemove v' \<and>
              (\<exists>kept. out = sk @ kept \<and>
                 list_all2
                   (\<lambda>x x'. ntype x' = VariableDeclarator \<and>
                    (\<exists>j v1 v2. j < length all \<and> all ! j = x \<and> extends vb v1 \<and> extends v2 v' \<and>
                       walk_fields v1 (Item ''declarations'' j # p) VariableDeclarator []
                         (nfields x) = Inr (nfields x', v2)) \<and>
                    (quiet v' VariableDeclaration x \<longrightarrow> x' = x))
                   (filter (\<lambda>x. \<not> isRemovalTarget vb (get x ''id'') (get x ''init'')) ds) kept))"
proof (induction ds arbitrary: v i sk)
  case Nil
  then show ?case by simp
next
  case (Cons d ds)
  let ?q = "Item ''declarations'' i # p"
  let ?par = "ctx (map Some sk @ Some d # map Some ds)"
  let ?T = "\<lambda>x. isRemovalTarget vb (get x ''id'') (get x ''init'')"
  let ?R = "\<lambda>v'. (\<lambda>x x'. ntype x' = VariableDeclarator \<and>
                    (\<exists>j v1 v2. j < length all \<and> all ! j = x \<and> extends vb v1 \<and> extends v2 v' \<and>
                       walk_fields v1 (Item ''declarations'' j # p) VariableDeclarator []
                         (nfields x) = Inr (nfields x', v2)) \<and>
                    (quiet v' VariableDeclaration x \<longrightarrow> x' = x))"
  have d: "ntype d = VariableDeclarator" and wfd: "wf VariableDeclaration d"
    and rest_ok: "\<forall>x\<in>set ds. ntype x = VariableDeclarator \<and> wf VariableDeclaration x"
    using Cons.prems(3) by simp_all
  have i: "i < length all" using Cons.prems(1) by (rule_tac ccontr) simp
  have di: "all ! i = d" using Cons.prems(1) by (rule nth_via_drop)
  have dr: "drop (Suc i) all = ds"
    using Cons_nth_drop_Suc [OF i] Cons.prems(1) by simp
  have fresh_below: "\<forall>m\<in>nodeToRemove v. \<not> suffix ?q m" using Cons.prems(4) by auto
  then have fresh: "?q \<notin> nodeToRemove v" by auto
  have tcong: "isRemovalTarget v x y = isRemovalTarget vb x y" for x y
    using Cons.prems(2) by (intro isRemovalTarget_cong) (simp add: extends_def)
  have len: "length (elems ?par ''declarations'') = 1 \<longleftrightarrow> sk = [] \<and> ds = []"
    by (simp add: ctx elems_def)
  show ?case
  proof (cases "?T d")
    case True
    let ?v1 = "registerAssertionVariables
        (if sk = [] \<and> ds = [] then add p v else add ?q v) (get d ''id'')"
    have w: "walk v ?q (Some ?par) d = Inr (if sk = [] \<and> ds = [] then Some d else None, ?v1)"
      using walk_target_declarator [OF d _ fresh, of ?par] True len by (simp add: tcong)
    have ext1: "extends v ?v1" using walk_extends(1) [OF w] .
    have marks1: "nodeToRemove ?v1 = insert (if sk = [] \<and> ds = [] then p else ?q) (nodeToRemove v)"
      by simp
    show ?thesis
    proof (cases "sk = [] \<and> ds = []")
      case sole: True
      with w ext1 marks1 True show ?thesis
        by (intro exI [of _ "[d]"] exI [of _ ?v1]) simp
    next
      case False
      have w': "walk v ?q (Some ?par) d = Inr (None, ?v1)"
        using w by (simp only: if_not_P [OF False])
      have p0: "extends vb ?v1" using Cons.prems(2) ext1 by (rule extends_trans)
      have p1: "\<forall>m\<in>nodeToRemove ?v1. \<forall>j\<ge>Suc i. \<not> suffix (Item ''declarations'' j # p) m"
        using Cons.prems(4) False by (auto simp: suffix_Cons_same_length)
      have p2: "p \<notin> nodeToRemove ?v1 \<or> sk = [] \<and> ds \<noteq> [] \<and> (\<forall>x\<in>set ds. ?T x)"
        using Cons.prems(5) False by auto
      from Cons.IH [OF dr p0 rest_ok p1 p2] obtain out v' where
        wa: "walk_array ?v1 p ctx ''declarations'' (Suc i) (map Some sk) (map Some ds) = Inr (map Some out, v')"
        and ext: "extends ?v1 v'"
        and res: "if sk = [] \<and> ds \<noteq> [] \<and> (\<forall>x\<in>set ds. ?T x)
         then p \<in> nodeToRemove v'
         else p \<notin> nodeToRemove v' \<and>
              (\<exists>kept. out = sk @ kept \<and> list_all2 (?R v') (filter (\<lambda>x. \<not> ?T x) ds) kept)"
        by blast
      have wa': "walk_array v p ctx ''declarations'' i (map Some sk) (map Some (d # ds))
          = Inr (map Some out, v')"
        using w' wa by simp
      have ext': "extends v v'" using ext1 ext by (rule extends_trans)
      have cond: "(sk = [] \<and> d # ds \<noteq> [] \<and> (\<forall>x\<in>set (d # ds). ?T x)) =
          (sk = [] \<and> ds \<noteq> [] \<and> (\<forall>x\<in>set ds. ?T x))"
        using True False by auto
      have flt: "filter (\<lambda>x. \<not> ?T x) (d # ds) = filter (\<lambda>x. \<not> ?T x) ds"
        using True by simp
      show ?thesis
      proof (intro exI [of _ out] exI [of _ v'] conjI)
        show "walk_array v p ctx ''declarations'' i (map Some sk) (map Some (d # ds))
            = Inr (map Some out, v')"
          by (rule wa')
        show "extends v v'" by (rule ext')
        show "if sk = [] \<and> d # ds \<noteq> [] \<and> (\<forall>x\<in>set (d # ds). ?T x)
          then p \<in> nodeToRemove v'
          else p \<notin> nodeToRemove v' \<and>
               (\<exists>kept. out = sk @ kept \<and>
                  list_all2 (?R v') (filter (\<lambda>x. \<not> ?T x) (d # ds)) kept)"
          unfolding cond flt by (rule res)
      qed
    qed
  next
    case False
    then have non: "\<not> isRemovalTarget v (get d ''id'') (get d ''init'')" by (simp add: tcong)
    from walk_nontarget_declarator [OF d wfd non fresh, of ?par] obtain x' v1 where
      w: "walk v ?q (Some ?par) d = Inr (Some x', v1)"
      and tx': "ntype x' = VariableDeclarator"
      and wf': "walk_fields v ?q VariableDeclarator [] (nfields d) = Inr (nfields x', v1)"
      and m1: "nodeToRemove v1 \<subseteq> nodeToRemove v \<union> {m. strict_suffix ?q m}"
      by blast
    have ext1: "extends v v1" using walk_extends(1) [OF w] .
    have pv: "p \<notin> nodeToRemove v" using Cons.prems(5) False by auto
    have p0: "extends vb v1" using Cons.prems(2) ext1 by (rule extends_trans)
    have p1: "\<forall>m\<in>nodeToRemove v1. \<forall>j\<ge>Suc i. \<not> suffix (Item ''declarations'' j # p) m"
    proof (intro ballI allI impI)
      fix m j assume m: "m \<in> nodeToRemove v1" and j: "Suc i \<le> j"
      from m m1 consider "m \<in> nodeToRemove v" | "strict_suffix ?q m" by auto
      then show "\<not> suffix (Item ''declarations'' j # p) m"
      proof cases
        case 1
        with Cons.prems(4) j show ?thesis by auto
      next
        case 2
        with j show ?thesis by (auto dest: suffix_Item_distinct)
      qed
    qed
    have "\<not> strict_suffix ?q p" by (auto simp: strict_suffix_def suffix_def)
    with pv m1 have p2: "p \<notin> nodeToRemove v1 \<or> sk @ [x'] = [] \<and> ds \<noteq> [] \<and> (\<forall>x\<in>set ds. ?T x)"
      by auto
    from Cons.IH [OF dr p0 rest_ok p1 p2] obtain out v' where
      wa: "walk_array v1 p ctx ''declarations'' (Suc i) (map Some (sk @ [x'])) (map Some ds) = Inr (map Some out, v')"
      and ext: "extends v1 v'"
      and pm: "p \<notin> nodeToRemove v'"
      and res: "\<exists>kept. out = (sk @ [x']) @ kept \<and> list_all2 (?R v') (filter (\<lambda>x. \<not> ?T x) ds) kept"
      by auto
    from res obtain kept where out: "out = sk @ x' # kept"
      and la: "list_all2 (?R v') (filter (\<lambda>x. \<not> ?T x) ds) kept" by auto
    have ext': "extends v v'" using ext1 ext by (rule extends_trans)
    have same: "x' = d" if qt: "quiet v' VariableDeclaration d"
    proof -
      have "quiet v VariableDeclaration d"
        using qt ext' by (intro quiet_antimono(1) [of v' _ _ v]) (auto simp: extends_def)
      then have "quiet v (case Some ?par of None \<Rightarrow> ntype d | Some q \<Rightarrow> ntype q) d"
        by (simp add: ctx)
      from walk_quiet(1) [OF this fresh_below] w show ?thesis by simp
    qed
    have walked: "\<exists>j v1 v2. j < length all \<and> all ! j = d \<and> extends vb v1 \<and> extends v2 v' \<and>
        walk_fields v1 (Item ''declarations'' j # p) VariableDeclarator [] (nfields d)
          = Inr (nfields x', v2)"
      using i di Cons.prems(2) ext wf' by blast
    have wa': "walk_array v p ctx ''declarations'' i (map Some sk) (map Some (d # ds))
        = Inr (map Some out, v')"
      using w wa by simp
    have la': "list_all2 (?R v') (filter (\<lambda>x. \<not> ?T x) (d # ds)) (x' # kept)"
      using False la tx' walked same by simp
    have nc: "\<not> (sk = [] \<and> d # ds \<noteq> [] \<and> (\<forall>x\<in>set (d # ds). ?T x))"
      using False by simp
    show ?thesis
    proof (intro exI [of _ out] exI [of _ v'] conjI)
      show "walk_array v p ctx ''declarations'' i (map Some sk) (map Some (d # ds))
          = Inr (map Some out, v')"
        by (rule wa')
      show "extends v v'" by (rule ext')
      have "p \<notin> nodeToRemove v' \<and>
             (\<exists>kept. out = sk @ kept \<and>
                list_all2 (?R v') (filter (\<lambda>x. \<not> ?T x) (d # ds)) kept)"
        using pm out la' by blast
      then show "if sk = [] \<and> d # ds \<noteq> [] \<and> (\<forall>x\<in>set (d # ds). ?T x)
          then p \<in> nodeToRemove v'
          else p \<notin> nodeToRemove v' \<and>
               (\<exists>kept. out = sk @ kept \<and>
                  list_all2 (?R v') (filter (\<lambda>x. \<not> ?T x) (d # ds)) kept)"
        unfolding if_not_P [OF nc] .
    qed
  qed
qed

lemma walk_declaration:
  assumes ds: "\<forall>x\<in>set ds. ntype x = VariableDeclarator \<and> wf VariableDeclaration x"
    and marks: "\<forall>q\<in>nodeToRemove v. \<not> suffix p q"
    and p: "p \<noteq> []"
  shows "\<exists>r v'. walk v p (Some parent) (mk_varDecl kind ds) = Inr (r, v') \<and> extends v v' \<and>
     (if ds \<noteq> [] \<and> (\<forall>x\<in>set ds. isRemovalTarget v (get x ''id'') (get x ''init''))
      then p \<in> nodeToRemove v' \<and> r = None
      else p \<notin> nodeToRemove v' \<and>
           (\<exists>kept. r = Some (mk_varDecl kind kept) \<and>
              list_all2
                (\<lambda>x x'. ntype x' = VariableDeclarator \<and>
                    (\<exists>j v1 v2. j < length ds \<and> ds ! j = x \<and> extends v v1 \<and> extends v2 v' \<and>
                       walk_fields v1 (Item ''declarations'' j # p) VariableDeclarator []
                         (nfields x) = Inr (nfields x', v2)) \<and>
                    (quiet v' VariableDeclaration x \<longrightarrow> x' = x))
                (filter (\<lambda>x. \<not> isRemovalTarget v (get x ''id'') (get x ''init'')) ds) kept))"
proof -
  define ctx where "ctx = (\<lambda>ys. Node VariableDeclaration
      ([] @ (''declarations'', Array ys) # [(''kind'', Prim (JString kind))]))"
  let ?T = "\<lambda>x. isRemovalTarget v (get x ''id'') (get x ''init'')"
  let ?R = "\<lambda>v'. (\<lambda>x x'. ntype x' = VariableDeclarator \<and>
                    (\<exists>j v1 v2. j < length ds \<and> ds ! j = x \<and> extends v v1 \<and> extends v2 v' \<and>
                       walk_fields v1 (Item ''declarations'' j # p) VariableDeclarator []
                         (nfields x) = Inr (nfields x', v2)) \<and>
                    (quiet v' VariableDeclaration x \<longrightarrow> x' = x))"
  have m0: "\<forall>m\<in>nodeToRemove v. \<forall>j\<ge>0. \<not> suffix (Item ''declarations'' j # p) m"
    using marks by (auto dest: suffix_ConsD)
  have p0: "p \<notin> nodeToRemove v \<or> ([]::node list) = [] \<and> ds \<noteq> [] \<and> (\<forall>x\<in>set ds. ?T x)"
    using marks by auto
  have d0: "drop 0 ds = ds" by simp
  from walk_declarators [OF ctx_def d0 extends_refl ds m0 p0] obtain out v' where
    wa: "walk_array v p ctx ''declarations'' 0 (map Some []) (map Some ds) = Inr (map Some out, v')"
    and ext: "extends v v'"
    and res: "if ([]::node list) = [] \<and> ds \<noteq> [] \<and> (\<forall>x\<in>set ds. ?T x)
         then p \<in> nodeToRemove v'
         else p \<notin> nodeToRemove v' \<and>
              (\<exists>kept. out = [] @ kept \<and> list_all2 (?R v') (filter (\<lambda>x. \<not> ?T x) ds) kept)"
    by blast
  have e: "enter v p (mk_varDecl kind ds) parent = (False, v)"
    by (simp add: enter_def)
  have f: "walk_fields v p VariableDeclaration []
        [(''declarations'', Array (map Some ds)), (''kind'', Prim (JString kind))] =
      Inr ([(''declarations'', Array (map Some out)), (''kind'', Prim (JString kind))], v')"
    using wa by (simp add: ctx_def)
  have l: "leave v' p (mk_varDecl kind out) parent =
      Inr (if p \<in> nodeToRemove v' then RemoveSelf else NoChange)"
    using p by (cases p) (auto simp: leave_def isNonBlockChildOfIfStatementOrLoop_def)
  have w: "walk v p (Some parent) (mk_varDecl kind ds) =
      Inr (if p \<in> nodeToRemove v' then None else Some (mk_varDecl kind out), v')"
    using e f l by simp
  show ?thesis
  proof (cases "ds \<noteq> [] \<and> (\<forall>x\<in>set ds. ?T x)")
    case True
    with res have "p \<in> nodeToRemove v'" by simp
    with w ext True show ?thesis by simp
  next
    case False
    with res have pn: "p \<notin> nodeToRemove v'"
      and la: "list_all2 (?R v') (filter (\<lambda>x. \<not> ?T x) ds) out"
      by auto
    from w pn have "walk v p (Some parent) (mk_varDecl kind ds) = Inr (Some (mk_varDecl kind out), v')"
      by simp
    with ext False pn la show ?thesis by auto
  qed
qed

text \<open>
  C3, as the specification states it, fails: in
  \<^verbatim>\<open>const a = require('assert'), b = require('assert');\<close> the declarator of
  \<^verbatim>\<open>a\<close> is a removal target and not the only declarator, yet its sibling is not
  preserved: the whole declaration is removed.
\<close>

theorem sibling_target_counterexample:
  "isRemovalTarget (createVisitor \<lparr>modules = None, variables = None\<rparr>)
     (get (requires_assert ''a'') ''id'') (get (requires_assert ''a'') ''init'') \<and>
   length [requires_assert ''a'', requires_assert ''b''] \<noteq> 1 \<and>
   unassertAst (mk_program [mk_varDecl ''const'' [requires_assert ''a'', requires_assert ''b'']])
       \<lparr>modules = None, variables = None\<rparr>
     = Inr (Some (mk_program []))"
  by (simp add: visitor_defs)

text \<open>
  C3, amended: on a declarator whose \<open>(id, init)\<close> is a removal target, \<^verbatim>\<open>enter\<close>
  asks the walker to skip it and adds one mark: on the parent declaration when the
  declarator is the only one that the declaration holds at that moment (the removal
  targets before it are spliced out by then), and on the declarator alone otherwise.
  For a declaration whose declarators have the ESTree shape, not the root and with no mark
  on or below its position, the walk returns, and: the declaration is marked and removed
  as a whole exactly when it has a declarator and all its declarators are removal targets
  (the last one is then alone when it is entered); otherwise the declaration stays,
  unmarked, without its declarators that are removal targets, and with every declarator
  that is not a removal target, in order. Such a sibling is still a declarator; its
  properties are those that the walk of its own properties returns, at its position, in a
  state of the visitor between the one before and the one after the declaration; and
  it is unchanged when nothing in it is recognised with the names registered up to the end
  of the declaration.
\<close>

theorem declarator_removal:
  "(ntype d = VariableDeclarator \<and> isRemovalTarget v (get d ''id'') (get d ''init'') \<longrightarrow>
      fst (enter v pd d decl) \<and>
      nodeToRemove (snd (enter v pd d decl)) =
        insert (if length (elems decl ''declarations'') = 1 then tl pd else pd) (nodeToRemove v)) \<and>
   ((\<forall>x\<in>set ds. ntype x = VariableDeclarator \<and> wf VariableDeclaration x) \<and>
    (\<forall>q\<in>nodeToRemove v. \<not> suffix p q) \<and> p \<noteq> [] \<longrightarrow>
      (\<exists>r v'. walk v p (Some parent) (mk_varDecl kind ds) = Inr (r, v') \<and> extends v v' \<and>
         (if ds \<noteq> [] \<and> (\<forall>x\<in>set ds. isRemovalTarget v (get x ''id'') (get x ''init''))
          then p \<in> nodeToRemove v' \<and> r = None
          else p \<notin> nodeToRemove v' \<and>
               (\<exists>kept. r = Some (mk_varDecl kind kept) \<and>
                  list_all2
                    (\<lambda>x x'. ntype x' = VariableDeclarator \<and>
                       (\<exists>j v1 v2. j < length ds \<and> ds ! j = x \<and> extends v v1 \<and> extends v2 v' \<and>
                          walk_fields v1 (Item ''declarations'' j # p) VariableDeclarator []
                            (nfields x) = Inr (nfields x', v2)) \<and>
                       (quiet v' VariableDeclaration x \<longrightarrow> x' = x))
                    (filter (\<lambda>x. \<not> isRemovalTarget v (get x ''id'') (get x ''init'')) ds)
                    kept))))"
proof (intro conjI impI)
  assume a: "ntype d = VariableDeclarator \<and> isRemovalTarget v (get d ''id'') (get d ''init'')"
  then have e: "enter v pd d decl =
      (True, registerAssertionVariables
               (if length (elems decl ''declarations'') = 1 then add (tl pd) v else add pd v)
               (get d ''id''))"
    by (simp add: enter_declarator)
  show "fst (enter v pd d decl)" by (simp add: e)
  show "nodeToRemove (snd (enter v pd d decl)) =
       insert (if length (elems decl ''declarations'') = 1 then tl pd else pd) (nodeToRemove v)"
    by (simp add: e)
next
  assume b: "(\<forall>x\<in>set ds. ntype x = VariableDeclarator \<and> wf VariableDeclaration x) \<and>
    (\<forall>q\<in>nodeToRemove v. \<not> suffix p q) \<and> p \<noteq> []"
  then show "\<exists>r v'. walk v p (Some parent) (mk_varDecl kind ds) = Inr (r, v') \<and> extends v v' \<and>
         (if ds \<noteq> [] \<and> (\<forall>x\<in>set ds. isRemovalTarget v (get x ''id'') (get x ''init''))
          then p \<in> nodeToRemove v' \<and> r = None
          else p \<notin> nodeToRemove v' \<and>
               (\<exists>kept. r = Some (mk_varDecl kind kept) \<and>
                  list_all2
                    (\<lambda>x x'. ntype x' = VariableDeclarator \<and>
                       (\<exists>j v1 v2. j < length ds \<and> ds ! j = x \<and> extends v v1 \<and> extends v2 v' \<and>
                          walk_fields v1 (Item ''declarations'' j # p) VariableDeclarator []
                            (nfields x) = Inr (nfields x', v2)) \<and>
                       (quiet v' VariableDeclaration x \<longrightarrow> x' = x))
                    (filter (\<lambda>x. \<not> isRemovalTarget v (get x ''id'') (get x ''init'')) ds)
                    kept))"
    by (intro walk_declaration) blast+
qed

theorem declarator_removal_witness:
  "ntype (requires_assert ''assert'') = VariableDeclarator \<and>
   isRemovalTarget (createVisitor \<lparr>modules = None, variables = None\<rparr>)
     (get (requires_assert ''assert'') ''id'') (get (requires_assert ''assert'') ''init'') \<and>
   fst (enter (createVisitor \<lparr>modules = None, variables = None\<rparr>) [Item ''declarations'' 0, Item ''body'' 0] (requires_assert ''assert'') (mk_varDecl ''const'' [requires_assert ''assert'', x_is_1, g_is_function [call_stmt ''assert''], requires_assert ''b''])) \<and>
   nodeToRemove
     (snd (enter (createVisitor \<lparr>modules = None, variables = None\<rparr>) [Item ''declarations'' 0, Item ''body'' 0] (requires_assert ''assert'') (mk_varDecl ''const'' [requires_assert ''assert'', x_is_1, g_is_function [call_stmt ''assert''], requires_assert ''b''])))
     = {[Item ''declarations'' 0, Item ''body'' 0]} \<and>
   list_all (\<lambda>x. ntype x = VariableDeclarator \<and> wf VariableDeclaration x) [requires_assert ''assert'', x_is_1, g_is_function [call_stmt ''assert''], requires_assert ''b''] \<and>
   nodeToRemove (createVisitor \<lparr>modules = None, variables = None\<rparr>) = {} \<and>
   filter (\<lambda>x. \<not> isRemovalTarget (createVisitor \<lparr>modules = None, variables = None\<rparr>) (get x ''id'') (get x ''init'')) [requires_assert ''assert'', x_is_1, g_is_function [call_stmt ''assert''], requires_assert ''b'']
     = [x_is_1, g_is_function [call_stmt ''assert'']] \<and>
   walk (createVisitor \<lparr>modules = None, variables = None\<rparr>) [Item ''body'' 0] (Some (mk_program [(mk_varDecl ''const'' [requires_assert ''assert'', x_is_1, g_is_function [call_stmt ''assert''], requires_assert ''b''])])) (mk_varDecl ''const'' [requires_assert ''assert'', x_is_1, g_is_function [call_stmt ''assert''], requires_assert ''b''])
     = Inr (Some (mk_varDecl ''const'' [x_is_1, g_is_function []]),
          \<lparr>targetModules = {''assert'', ''assert/strict'', ''node:assert'', ''node:assert/strict''},
            targetVariables = {''b'', ''assert''},
            nodeToRemove =
              {[Item ''declarations'' 3, Item ''body'' 0],
               [Item ''body'' 0, Key ''body'', Key ''init'', Item ''declarations'' 2,
                Item ''body'' 0],
               [Item ''declarations'' 0, Item ''body'' 0]}\<rparr>) \<and>
   (\<exists>j v1 v2. j < length [requires_assert ''assert'', x_is_1, g_is_function [call_stmt ''assert''], requires_assert ''b''] \<and> [requires_assert ''assert'', x_is_1, g_is_function [call_stmt ''assert''], requires_assert ''b''] ! j = g_is_function [call_stmt ''assert''] \<and>
      extends (createVisitor \<lparr>modules = None, variables = None\<rparr>) v1 \<and>
      extends v2 \<lparr>targetModules = {''assert'', ''assert/strict'', ''node:assert'', ''node:assert/strict''},
            targetVariables = {''b'', ''assert''},
            nodeToRemove =
              {[Item ''declarations'' 3, Item ''body'' 0],
               [Item ''body'' 0, Key ''body'', Key ''init'', Item ''declarations'' 2,
                Item ''body'' 0],
               [Item ''declarations'' 0, Item ''body'' 0]}\<rparr> \<and>
      walk_fields v1 [Item ''declarations'' j, Item ''body'' 0] VariableDeclarator []
        (nfields (g_is_function [call_stmt ''assert''])) = Inr (nfields (g_is_function []), v2)) \<and>
   quiet \<lparr>targetModules = {''assert'', ''assert/strict'', ''node:assert'', ''node:assert/strict''},
            targetVariables = {''b'', ''assert''},
            nodeToRemove =
              {[Item ''declarations'' 3, Item ''body'' 0],
               [Item ''body'' 0, Key ''body'', Key ''init'', Item ''declarations'' 2,
                Item ''body'' 0],
               [Item ''declarations'' 0, Item ''body'' 0]}\<rparr> VariableDeclaration x_is_1"
proof -
  let ?v = "(createVisitor \<lparr>modules = None, variables = None\<rparr>)"
  let ?ds = "[requires_assert ''assert'', x_is_1, g_is_function [call_stmt ''assert''], requires_assert ''b'']"
  let ?p = "[Item ''body'' 0]"
  let ?T = "\<lambda>x. isRemovalTarget ?v (get x ''id'') (get x ''init'')"
  let ?final = "\<lparr>targetModules = {''assert'', ''assert/strict'', ''node:assert'', ''node:assert/strict''},
            targetVariables = {''b'', ''assert''},
            nodeToRemove =
              {[Item ''declarations'' 3, Item ''body'' 0],
               [Item ''body'' 0, Key ''body'', Key ''init'', Item ''declarations'' 2,
                Item ''body'' 0],
               [Item ''declarations'' 0, Item ''body'' 0]}\<rparr>"
  let ?R = "\<lambda>v' x x'. ntype x' = VariableDeclarator \<and>
      (\<exists>j v1 v2. j < length ?ds \<and> ?ds ! j = x \<and> extends ?v v1 \<and> extends v2 v' \<and>
         walk_fields v1 (Item ''declarations'' j # ?p) VariableDeclarator []
           (nfields x) = Inr (nfields x', v2)) \<and>
      (quiet v' VariableDeclaration x \<longrightarrow> x' = x)"
  have a: "ntype (requires_assert ''assert'') = VariableDeclarator \<and>
      isRemovalTarget ?v
        (get (requires_assert ''assert'') ''id'') (get (requires_assert ''assert'') ''init'')"
    by (simp add: visitor_defs)
  have b: "(\<forall>x\<in>set ?ds. ntype x = VariableDeclarator \<and> wf VariableDeclaration x) \<and>
      (\<forall>q\<in>nodeToRemove ?v. \<not> suffix ?p q) \<and> ?p \<noteq> []"
    by (simp add: createVisitor_def Let_def removable_def)
  have flt: "filter (\<lambda>x. \<not> ?T x) ?ds = [x_is_1, g_is_function [call_stmt ''assert'']]"
    by (simp add: visitor_defs)
  have w: "walk ?v ?p (Some (mk_program [mk_varDecl ''const'' ?ds])) (mk_varDecl ''const'' ?ds)
      = Inr (Some (mk_varDecl ''const'' [x_is_1, g_is_function []]), ?final)"
    by (simp add: visitor_defs numeral_3_eq_3 numeral_2_eq_2)
  have q: "quiet ?final VariableDeclaration x_is_1"
    by (simp add: recognized_def visitor_defs)
  from declarator_removal
    [of "requires_assert ''assert''" ?v "[Item ''declarations'' 0, Item ''body'' 0]"
        "mk_varDecl ''const'' ?ds" ?ds ?p "mk_program [mk_varDecl ''const'' ?ds]" "''const''"]
    a b
  have e: "fst (enter ?v [Item ''declarations'' 0, Item ''body'' 0] (requires_assert ''assert'')
              (mk_varDecl ''const'' ?ds))"
    and m: "nodeToRemove (snd (enter ?v [Item ''declarations'' 0, Item ''body'' 0]
              (requires_assert ''assert'') (mk_varDecl ''const'' ?ds)))
        = insert (if length (elems (mk_varDecl ''const'' ?ds) ''declarations'') = 1
                  then tl [Item ''declarations'' 0, Item ''body'' 0]
                  else [Item ''declarations'' 0, Item ''body'' 0]) (nodeToRemove ?v)"
    and r: "\<exists>r v'. walk ?v ?p (Some (mk_program [mk_varDecl ''const'' ?ds]))
                (mk_varDecl ''const'' ?ds) = Inr (r, v') \<and> extends ?v v' \<and>
         (if ?ds \<noteq> [] \<and> (\<forall>x\<in>set ?ds. ?T x)
          then ?p \<in> nodeToRemove v' \<and> r = None
          else ?p \<notin> nodeToRemove v' \<and>
               (\<exists>kept. r = Some (mk_varDecl ''const'' kept) \<and>
                  list_all2 (?R v') (filter (\<lambda>x. \<not> ?T x) ?ds) kept))"
    by blast+
  have nt: "\<not> (?ds \<noteq> [] \<and> (\<forall>x\<in>set ?ds. ?T x))"
    by (simp add: visitor_defs)
  from r obtain r0 v' where
    w': "walk ?v ?p (Some (mk_program [mk_varDecl ''const'' ?ds])) (mk_varDecl ''const'' ?ds)
           = Inr (r0, v')"
    and c: "if ?ds \<noteq> [] \<and> (\<forall>x\<in>set ?ds. ?T x)
          then ?p \<in> nodeToRemove v' \<and> r0 = None
          else ?p \<notin> nodeToRemove v' \<and>
               (\<exists>kept. r0 = Some (mk_varDecl ''const'' kept) \<and>
                  list_all2 (?R v') (filter (\<lambda>x. \<not> ?T x) ?ds) kept)"
    by blast
  from w' have r0: "r0 = Some (mk_varDecl ''const'' [x_is_1, g_is_function []])"
    and v': "v' = ?final"
    unfolding w by simp_all
  from c obtain kept where k: "r0 = Some (mk_varDecl ''const'' kept)"
    and la: "list_all2 (?R v') (filter (\<lambda>x. \<not> ?T x) ?ds) kept"
    unfolding if_not_P [OF nt] by blast
  from k have kk: "kept = [x_is_1, g_is_function []]"
    unfolding r0 by (auto simp: map_eq_Cons_conv Cons_eq_map_conv)
  from la have "list_all2 (?R v')
           [x_is_1, g_is_function [call_stmt ''assert'']] [x_is_1, g_is_function []]"
    unfolding flt kk .
  then have "?R v' (g_is_function [call_stmt ''assert'']) (g_is_function [])"
    by (simp only: list_all2_Cons list_all2_Nil simp_thms) blast
  then have s: "\<exists>j v1 v2. j < length ?ds \<and> ?ds ! j = g_is_function [call_stmt ''assert''] \<and>
      extends ?v v1 \<and> extends v2 ?final \<and>
      walk_fields v1 [Item ''declarations'' j, Item ''body'' 0] VariableDeclarator []
        (nfields (g_is_function [call_stmt ''assert''])) = Inr (nfields (g_is_function []), v2)"
    unfolding v' by blast
  have m': "nodeToRemove (snd (enter ?v [Item ''declarations'' 0, Item ''body'' 0]
              (requires_assert ''assert'') (mk_varDecl ''const'' ?ds)))
        = {[Item ''declarations'' 0, Item ''body'' 0]}"
    using m by (simp add: elems_def createVisitor_def Let_def)
  have wfs: "list_all (\<lambda>x. ntype x = VariableDeclarator \<and> wf VariableDeclaration x) ?ds"
    using b by (simp add: list_all_iff)
  have e0: "nodeToRemove ?v = {}" by (simp add: createVisitor_def Let_def)
  from a e m' wfs e0 flt w s q show ?thesis by blast
qed

end
